theory Spec2Isabelle
  imports Main "HOL-Library.Word"
begin

section \<open>Graph batching and partitioning (src/graph/graph\_op.cc)\<close>

text \<open>
  Conventions of the embedding.
  \<^item> A vertex or edge id stored in a container (\<^verbatim>\<open>dgl_id_t\<close>, that is \<^verbatim>\<open>uint64_t\<close>) and an
    \<^verbatim>\<open>int64_t\<close> stored in a container are 64-bit words: the operations add offsets to them and
    subtract offsets from them, and both wrap around. A word is read as unsigned with
    \<open>unat\<close> and as signed with \<open>sint\<close>, as the C++ type at the place of use says.
  \<^item> Container sizes, the 64-bit loop counters (\<^verbatim>\<open>size_t\<close>, \<^verbatim>\<open>uint64_t\<close>, \<^verbatim>\<open>int64_t\<close>) and the
    running offsets that count vertices or edges are natural numbers (integers where the
    source type is signed and the value can be negative): a \<^verbatim>\<open>std::vector\<close> never holds
    \<open>2 ^ 63\<close> elements, so these counters never wrap on them. The counters that the source
    declares \<^verbatim>\<open>int\<close> have 32 bits and are modelled with that range (\<open>for_int\<close>).
  \<^item> A failed \<^verbatim>\<open>CHECK\<close> is the error \<open>InvalidArgument\<close>. An access outside a container, an
    allocation of negative extent and the overflow of a signed loop counter or running sum,
    which C++ leaves undefined, are the error \<open>OutOfRange\<close>, so that no theorem can rest on
    what the program would do next.
\<close>

type_synonym dgl_id_t = "64 word"

datatype error = InvalidArgument | OutOfRange

subsection \<open>Sequencing of fallible steps\<close>

definition bind_err :: "error + 'a \<Rightarrow> ('a \<Rightarrow> error + 'b) \<Rightarrow> error + 'b" where
  "bind_err r f = (case r of Inl e \<Rightarrow> Inl e | Inr x \<Rightarrow> f x)"

text \<open>A \<^verbatim>\<open>for\<close> loop over the values \<open>xs\<close> of its counter, the body threading a state.\<close>

fun fold_err :: "('a \<Rightarrow> 's \<Rightarrow> error + 's) \<Rightarrow> 'a list \<Rightarrow> 's \<Rightarrow> error + 's" where
  "fold_err f [] s = Inr s"
| "fold_err f (x # xs) s = (case f x s of Inl e \<Rightarrow> Inl e | Inr s' \<Rightarrow> fold_err f xs s')"

text \<open>Reading \<^verbatim>\<open>xs[i]\<close> and writing \<^verbatim>\<open>xs[i] = v\<close>, with the range of the container checked.\<close>

definition nth_err :: "'a list \<Rightarrow> nat \<Rightarrow> error + 'a" where
  "nth_err xs i = (if i < length xs then Inr (xs ! i) else Inl OutOfRange)"

definition nth_int :: "'a list \<Rightarrow> int \<Rightarrow> error + 'a" where
  "nth_int xs i = (if 0 \<le> i \<and> i < int (length xs) then Inr (xs ! nat i) else Inl OutOfRange)"

definition store :: "'a list \<Rightarrow> nat \<Rightarrow> 'a \<Rightarrow> error + 'a list" where
  "store xs i v = (if i < length xs then Inr (xs[i := v]) else Inl OutOfRange)"

text \<open>
  A loop \<^verbatim>\<open>for (int l = init; l < bound; ++l)\<close> whose bound is an \<^verbatim>\<open>int64_t\<close>: the counter is
  converted to \<^verbatim>\<open>int64_t\<close> for the comparison, and \<^verbatim>\<open>++l\<close> at \<^verbatim>\<open>INT_MAX\<close> is a signed
  overflow. \<open>int32\<close> is the conversion of the \<^verbatim>\<open>int64_t\<close> initial value to \<^verbatim>\<open>int\<close>, which keeps
  the low 32 bits.
\<close>

definition int32 :: "int \<Rightarrow> int" where
  "int32 x = sint (word_of_int x :: 32 word)"

function for_int :: "int \<Rightarrow> int \<Rightarrow> (int \<Rightarrow> 's \<Rightarrow> error + 's) \<Rightarrow> 's \<Rightarrow> error + 's" where
  "for_int l bound body s =
     (if l < bound
      then (case body l s of
              Inl e \<Rightarrow> Inl e
            | Inr s' \<Rightarrow> if l = 2 ^ 31 - 1 then Inl OutOfRange else for_int (l + 1) bound body s')
      else Inr s)"
  by pat_completeness auto
termination
  by (relation "measure (\<lambda>(l, bound, body, s). nat (bound - l))") auto

declare for_int.simps [simp del]

subsection \<open>TypedArray (IdArray)\<close>

datatype DLDeviceType = kDLCPU | kDLGPU | kDLCPUPinned | kDLOpenCL

datatype DLDataTypeCode = kDLInt | kDLUInt | kDLFloat

text \<open>
  The fields of the tensor that the operations read. \<open>data\<close> is the buffer as the source
  reads it through its \<^verbatim>\<open>static_cast\<close> to 64-bit entries, and \<^verbatim>\<open>shape[0]\<close> is its length.
  The cell type is a parameter: a cell of a buffer fresh from \<^verbatim>\<open>IdArray::Empty\<close> holds
  nothing yet (\<open>None\<close>) until the operation writes it.
\<close>

record 'a NDArray =
  device_type :: DLDeviceType
  ndim :: nat
  dtype_code :: DLDataTypeCode
  dtype_bits :: nat
  data :: "'a list"

type_synonym IdArray = "dgl_id_t NDArray"

definition shape0 :: "'a NDArray \<Rightarrow> nat" where
  "shape0 arr = length (data arr)"

definition IsValidIdArray :: "'a NDArray \<Rightarrow> bool" where
  "IsValidIdArray arr \<longleftrightarrow>
     device_type arr = kDLCPU \<and> ndim arr = 1 \<and> dtype_code arr = kDLInt \<and> dtype_bits arr = 64"

text \<open>
  Modelled from the spec: \<^verbatim>\<open>IdArray::Empty({len}, DLDataType{kDLInt, 64, 1}, DLContext{kDLCPU, 0})\<close>
  is not under src/; by the spec's data model it is a host-resident one-dimensional signed
  64-bit buffer of \<open>len\<close> entries. Its cells are not initialised; a negative length has no
  buffer.
\<close>

definition Empty :: "int \<Rightarrow> error + dgl_id_t option NDArray" where
  "Empty len =
     (if len < 0 then Inl OutOfRange
      else Inr \<lparr>device_type = kDLCPU, ndim = 1, dtype_code = kDLInt, dtype_bits = 64,
                data = replicate (nat len) None\<rparr>)"

definition id_array :: "dgl_id_t list \<Rightarrow> IdArray" where
  "id_array xs = \<lparr>device_type = kDLCPU, ndim = 1, dtype_code = kDLInt, dtype_bits = 64, data = xs\<rparr>"

subsection \<open>MapParentIdToSubgraphId\<close>

text \<open>\<^verbatim>\<open>std::find(first, last, id) - first\<close>: the first position of \<open>id\<close>, the length if there is none.\<close>

fun find_pos :: "dgl_id_t list \<Rightarrow> dgl_id_t \<Rightarrow> nat" where
  "find_pos [] x = 0"
| "find_pos (y # ys) x = (if y = x then 0 else Suc (find_pos ys x))"

text \<open>The branch taken when \<^verbatim>\<open>std::is_sorted\<close> holds: one linear scan per query.\<close>

definition scan_lookup :: "dgl_id_t list \<Rightarrow> dgl_id_t \<Rightarrow> dgl_id_t" where
  "scan_lookup parent_data x =
     (let it = find_pos parent_data x
      in if it \<noteq> length parent_data then word_of_nat it else - 1)"

text \<open>The other branch: \<^verbatim>\<open>parent_map[id] = i\<close> for \<open>i\<close> from 0 upwards, then one lookup per query.\<close>

fun build_parent_map ::
  "dgl_id_t list \<Rightarrow> nat \<Rightarrow> (dgl_id_t \<rightharpoonup> dgl_id_t) \<Rightarrow> (dgl_id_t \<rightharpoonup> dgl_id_t)" where
  "build_parent_map [] i m = m"
| "build_parent_map (x # xs) i m = build_parent_map xs (Suc i) (m(x \<mapsto> word_of_nat i))"

definition hash_lookup :: "dgl_id_t list \<Rightarrow> dgl_id_t \<Rightarrow> dgl_id_t" where
  "hash_lookup parent_data x =
     (case build_parent_map parent_data 0 Map.empty x of Some p \<Rightarrow> p | None \<Rightarrow> - 1)"

text \<open>
  Either branch fills \<^verbatim>\<open>rst_data[i]\<close> from \<^verbatim>\<open>query_data[i]\<close> alone, for every \<open>i\<close> below
  \<^verbatim>\<open>query_len\<close>: the loop is a \<open>map\<close> over the query, and no cell of the fresh buffer is left
  unwritten.
\<close>

definition scan_strategy :: "dgl_id_t list \<Rightarrow> dgl_id_t list \<Rightarrow> dgl_id_t list" where
  "scan_strategy parent_data query_data = map (scan_lookup parent_data) query_data"

definition hash_strategy :: "dgl_id_t list \<Rightarrow> dgl_id_t list \<Rightarrow> dgl_id_t list" where
  "hash_strategy parent_data query_data = map (hash_lookup parent_data) query_data"

definition MapParentIdToSubgraphId :: "IdArray \<Rightarrow> IdArray \<Rightarrow> error + IdArray" where
  "MapParentIdToSubgraphId parent_vids query =
     (if \<not> IsValidIdArray parent_vids then Inl InvalidArgument
      else if \<not> IsValidIdArray query then Inl InvalidArgument
      else Inr (id_array
        (if sorted (data parent_vids) then scan_strategy (data parent_vids) (data query)
         else hash_strategy (data parent_vids) (data query))))"

subsection \<open>ExpandIds\<close>

text \<open>
  The inner loop writes \<^verbatim>\<open>rst_data[off_data[i] + j] = id_data[i]\<close> for \<open>j\<close> below
  \<^verbatim>\<open>local_len\<close>, an \<^verbatim>\<open>int64_t\<close>: the difference of two unsigned offsets read as signed.
\<close>

definition expand_one ::
  "dgl_id_t list \<Rightarrow> dgl_id_t list \<Rightarrow> nat \<Rightarrow> dgl_id_t option list \<Rightarrow> error + dgl_id_t option list" where
  "expand_one id_data off_data i rst_data =
     (let local_len = sint (off_data ! (i + 1) - off_data ! i)
      in fold_err (\<lambda>j buf. store buf (unat (off_data ! i + word_of_nat j)) (Some (id_data ! i)))
           [0 ..< nat local_len] rst_data)"

definition ExpandIds :: "IdArray \<Rightarrow> IdArray \<Rightarrow> error + dgl_id_t option NDArray" where
  "ExpandIds ids offset =
     (let id_len = shape0 ids; off_len = shape0 offset
      in if id_len + 1 \<noteq> off_len then Inl InvalidArgument
         else
           let id_data = data ids; off_data = data offset;
               len = sint (off_data ! (off_len - 1))
           in bind_err (Empty len) (\<lambda>rst.
                bind_err (fold_err (expand_one id_data off_data) [0 ..< id_len] (data rst))
                  (\<lambda>buf. Inr (rst\<lparr>data := buf\<rparr>))))"

subsection \<open>ImmutableGraph and its CSR\<close>

text \<open>
  \<open>indptr\<close> holds \<^verbatim>\<open>int64_t\<close> entries, \<open>indices\<close> and \<open>edge_ids\<close> hold \<^verbatim>\<open>dgl_id_t\<close> entries.
\<close>

record CSR =
  indptr :: "dgl_id_t list"
  indices :: "dgl_id_t list"
  edge_ids :: "dgl_id_t list"

text \<open>
  Modelled from the spec: the CSR class is not under src/. By the spec's data model \<open>indptr\<close>
  has length \<open>N + 1\<close> and \<open>indices\<close> and \<open>edge_ids\<close> have one entry per edge; the source
  assigns \<^verbatim>\<open>indptr[k]\<close> by index and appends to \<open>indices\<close> and \<open>edge_ids\<close>, so the constructor
  \<^verbatim>\<open>CSR(num_vertices, expected_num_edges)\<close> gives \<open>num_vertices + 1\<close> offsets, all zero, and no
  entries yet. A negative extent has no allocation.
\<close>

definition CSR_new :: "int \<Rightarrow> int \<Rightarrow> error + CSR" where
  "CSR_new num_vertices expected_num_edges =
     (if num_vertices + 1 < 0 \<or> expected_num_edges < 0 then Inl OutOfRange
      else Inr \<lparr>indptr = replicate (nat (num_vertices + 1)) 0, indices = [], edge_ids = []\<rparr>)"

text \<open>Modelled from the spec: the counts of a CSR, \<open>N\<close> with \<open>indptr\<close> of length \<open>N + 1\<close>.\<close>

definition CSR_NumVertices :: "CSR \<Rightarrow> nat" where
  "CSR_NumVertices c = length (indptr c) - 1"

definition CSR_NumEdges :: "CSR \<Rightarrow> nat" where
  "CSR_NumEdges c = length (indices c)"

text \<open>
  Modelled from the spec: ImmutableGraph is not under src/. The operations read a graph
  through \<^verbatim>\<open>GetInCSR()\<close>, \<^verbatim>\<open>NumVertices()\<close> and \<^verbatim>\<open>NumEdges()\<close> only, and build one with
  \<^verbatim>\<open>ImmutableGraph(in_csr, nullptr)\<close>, which holds the incoming CSR and no outgoing one. The
  record (its fields are the members \<^verbatim>\<open>in_csr_\<close> and \<^verbatim>\<open>out_csr_\<close>, written without the trailing
  underscore, which an Isabelle name cannot end in) holds the incoming-edge view that \<^verbatim>\<open>GetInCSR()\<close> hands out (the lazy conversion from
  an outgoing CSR is outside this file) and the outgoing CSR if one is built.
\<close>

record ImmutableGraph =
  in_csr :: CSR
  out_csr :: "CSR option"

definition GetInCSR :: "ImmutableGraph \<Rightarrow> CSR" where
  "GetInCSR gr = in_csr gr"

definition NumVertices_immutable :: "ImmutableGraph \<Rightarrow> nat" where
  "NumVertices_immutable gr = CSR_NumVertices (in_csr gr)"

definition NumEdges_immutable :: "ImmutableGraph \<Rightarrow> nat" where
  "NumEdges_immutable gr = CSR_NumEdges (in_csr gr)"

subsection \<open>DisjointUnion of immutable graphs\<close>

text \<open>
  The state of the second loop: the batched CSR and the three running counters. The first
  inner loop assigns \<^verbatim>\<open>indptr[indptr_idx]\<close> for \<open>i\<close> from 1; the other two append
  (\<^verbatim>\<open>push_back\<close>) one shifted entry per entry of the input, in order.
\<close>

record union_state =
  batched :: CSR
  cum_num_nodes :: nat
  cum_num_edges :: nat
  indptr_idx :: nat

definition union_indptr ::
  "dgl_id_t list \<Rightarrow> nat \<Rightarrow> dgl_id_t list \<times> nat \<Rightarrow> error + dgl_id_t list \<times> nat" where
  "union_indptr g_indptr cum_edges st =
     fold_err (\<lambda>i (ip, idx).
         bind_err (store ip idx (g_indptr ! i + word_of_nat cum_edges)) (\<lambda>ip'. Inr (ip', idx + 1)))
       [1 ..< length g_indptr] st"

definition union_step :: "ImmutableGraph \<Rightarrow> union_state \<Rightarrow> error + union_state" where
  "union_step gr st =
     (let g_csr = GetInCSR gr;
          g_num_nodes = CSR_NumVertices g_csr;
          g_num_edges = CSR_NumEdges g_csr
      in bind_err (union_indptr (indptr g_csr) (cum_num_edges st)
                     (indptr (batched st), indptr_idx st))
           (\<lambda>(ip, idx). Inr
              \<lparr>batched = \<lparr>indptr = ip,
                   indices = indices (batched st)
                     @ map (\<lambda>x. x + word_of_nat (cum_num_nodes st)) (indices g_csr),
                   edge_ids = edge_ids (batched st)
                     @ map (\<lambda>x. x + word_of_nat (cum_num_edges st)) (edge_ids g_csr)\<rparr>,
               cum_num_nodes = cum_num_nodes st + g_num_nodes,
               cum_num_edges = cum_num_edges st + g_num_edges,
               indptr_idx = idx\<rparr>))"

definition DisjointUnion_immutable :: "ImmutableGraph list \<Rightarrow> error + ImmutableGraph" where
  "DisjointUnion_immutable graphs =
     (let num_nodes = sum_list (map NumVertices_immutable graphs);
          num_edges = sum_list (map NumEdges_immutable graphs)
      in bind_err (CSR_new (int num_nodes) (int num_edges)) (\<lambda>b.
         bind_err (store (indptr b) 0 0) (\<lambda>ip0.
         bind_err (fold_err union_step graphs
                     \<lparr>batched = b\<lparr>indptr := ip0\<rparr>, cum_num_nodes = 0, cum_num_edges = 0,
                      indptr_idx = 1\<rparr>)
           (\<lambda>st. Inr \<lparr>in_csr = batched st, out_csr = None\<rparr>))))"

subsection \<open>DisjointPartitionBySizes and DisjointPartitionByNum of an immutable graph\<close>

text \<open>
  \<^verbatim>\<open>cumsum\<close>: 0, then one running sum per entry of \<open>sizes\<close>. The sums are \<^verbatim>\<open>int64_t\<close>: a sum
  outside the range of \<^verbatim>\<open>int64_t\<close> is a signed overflow.
\<close>

fun cumsum_int64 :: "int \<Rightarrow> int list \<Rightarrow> error + int list" where
  "cumsum_int64 c [] = Inr [c]"
| "cumsum_int64 c (s # ss) =
     (if c + s < - (2 ^ 63) \<or> 2 ^ 63 \<le> c + s then Inl OutOfRange
      else bind_err (cumsum_int64 (c + s) ss) (\<lambda>cs. Inr (c # cs)))"

definition sizes_data :: "IdArray \<Rightarrow> int list" where
  "sizes_data sizes = map sint (data sizes)"

text \<open>
  One round of the partition loop, for partition \<open>i\<close>. The three inner loops run an \<^verbatim>\<open>int\<close>
  counter from \<open>start_pos + 1\<close> while it is below \<open>end_pos + 1\<close>, and from
  \<^verbatim>\<open>bg_indptr[start_pos]\<close> while it is below \<^verbatim>\<open>bg_indptr[end_pos]\<close>, compared as signed
  integers.
\<close>

definition partition_step ::
  "CSR \<Rightarrow> int list \<Rightarrow> int list \<Rightarrow> nat \<Rightarrow> ImmutableGraph list \<times> dgl_id_t
     \<Rightarrow> error + ImmutableGraph list \<times> dgl_id_t" where
  "partition_step bg_csr szs cumsum i st =
     (let rst = fst st; cum_sum_edges = snd st;
          start_pos = cumsum ! i; end_pos = cumsum ! (i + 1)
      in bind_err (nth_int (indptr bg_csr) end_pos) (\<lambda>pe.
         bind_err (nth_int (indptr bg_csr) start_pos) (\<lambda>ps.
         let g_num_edges = pe - ps
         in bind_err (CSR_new (szs ! i) (sint g_num_edges)) (\<lambda>g.
            bind_err (for_int (int32 (start_pos + 1)) (end_pos + 1)
                        (\<lambda>l ip.
                          bind_err (nth_int (indptr bg_csr) l) (\<lambda>x.
                            if l - start_pos < 0 then Inl OutOfRange
                            else store ip (nat (l - start_pos)) (x - ps)))
                        (indptr g)) (\<lambda>g_indptr.
            bind_err (for_int (int32 (sint ps)) (sint pe)
                        (\<lambda>j ix.
                          bind_err (nth_int (indices bg_csr) j) (\<lambda>x.
                            Inr (ix @ [x - word_of_int (cumsum ! i)])))
                        (indices g)) (\<lambda>g_indices.
            bind_err (for_int (int32 (sint ps)) (sint pe)
                        (\<lambda>k es.
                          bind_err (nth_int (edge_ids bg_csr) k) (\<lambda>x.
                            Inr (es @ [x - cum_sum_edges])))
                        (edge_ids g)) (\<lambda>g_edge_ids.
            Inr (rst @ [\<lparr>in_csr = \<lparr>indptr = g_indptr, indices = g_indices,
                                      edge_ids = g_edge_ids\<rparr>,
                           out_csr = None\<rparr>],
                 cum_sum_edges + g_num_edges))))))))"

definition DisjointPartitionBySizes_immutable ::
  "ImmutableGraph \<Rightarrow> IdArray \<Rightarrow> error + ImmutableGraph list" where
  "DisjointPartitionBySizes_immutable batched_graph sizes =
     (let len = shape0 sizes
      in bind_err (cumsum_int64 0 (sizes_data sizes)) (\<lambda>cumsum.
         if cumsum ! len \<noteq> int (NumVertices_immutable batched_graph) then Inl InvalidArgument
         else bind_err
                (fold_err (partition_step (GetInCSR batched_graph) (sizes_data sizes) cumsum)
                   [0 ..< len] ([], 0))
                (\<lambda>st. Inr (fst st))))"



subsection \<open>The mutable graph\<close>

text \<open>
  The members of \<^verbatim>\<open>Graph\<close> that graph\_op.cc reads and writes: \<^verbatim>\<open>adjlist_\<close>,
  \<^verbatim>\<open>reverse_adjlist_\<close>, \<^verbatim>\<open>all_edges_src_\<close>, \<^verbatim>\<open>all_edges_dst_\<close> and \<^verbatim>\<open>num_edges_\<close>, written without the
  trailing underscore, which an Isabelle name cannot end in. An \<^verbatim>\<open>EdgeList\<close> is the pair of
  parallel vectors \<open>succ\<close> and \<open>edge_id\<close>.
\<close>

record EdgeList =
  succ :: "dgl_id_t list"
  edge_id :: "dgl_id_t list"

record Graph =
  adjlist :: "EdgeList list"
  reverse_adjlist :: "EdgeList list"
  all_edges_src :: "dgl_id_t list"
  all_edges_dst :: "dgl_id_t list"
  num_edges :: nat

text \<open>A default-constructed \<^verbatim>\<open>Graph\<close> and a default-constructed \<^verbatim>\<open>EdgeList\<close>.\<close>

definition empty_graph :: Graph where
  "empty_graph = \<lparr>adjlist = [], reverse_adjlist = [], all_edges_src = [], all_edges_dst = [],
                   num_edges = 0\<rparr>"

definition empty_elist :: EdgeList where
  "empty_elist = \<lparr>succ = [], edge_id = []\<rparr>"

text \<open>
  Modelled from the spec: the members \<^verbatim>\<open>NumVertices\<close>, \<^verbatim>\<open>NumEdges\<close>, \<^verbatim>\<open>AddVertices\<close> and
  \<^verbatim>\<open>AddEdge\<close> of \<^verbatim>\<open>Graph\<close> are not under src/. By the spec (sections 3 and 6) a graph has one
  adjacency list and one reverse adjacency list per vertex; vertices are appended; an edge is
  appended with the next sequential edge id, to the adjacency list of its source, to the
  reverse adjacency list of its destination and to the two edge-id-indexed arrays. An
  endpoint that is not a vertex has no list to append to.
\<close>

definition NumVertices :: "Graph \<Rightarrow> nat" where
  "NumVertices g = length (adjlist g)"

definition NumEdges :: "Graph \<Rightarrow> nat" where
  "NumEdges g = num_edges g"

definition AddVertices :: "nat \<Rightarrow> Graph \<Rightarrow> Graph" where
  "AddVertices n g =
     g\<lparr>adjlist := adjlist g @ replicate n empty_elist,
       reverse_adjlist := reverse_adjlist g @ replicate n empty_elist\<rparr>"

definition push_edge :: "EdgeList \<Rightarrow> dgl_id_t \<Rightarrow> dgl_id_t \<Rightarrow> EdgeList" where
  "push_edge elist v eid = \<lparr>succ = succ elist @ [v], edge_id = edge_id elist @ [eid]\<rparr>"

definition AddEdge :: "dgl_id_t \<Rightarrow> dgl_id_t \<Rightarrow> Graph \<Rightarrow> error + Graph" where
  "AddEdge src dst g =
     (if \<not> (unat src < length (adjlist g) \<and> unat dst < length (reverse_adjlist g))
      then Inl OutOfRange
      else
        let eid = word_of_nat (num_edges g)
        in Inr \<lparr>adjlist = (adjlist g)[unat src := push_edge (adjlist g ! unat src) dst eid],
                reverse_adjlist =
                  (reverse_adjlist g)[unat dst := push_edge (reverse_adjlist g ! unat dst) src eid],
                all_edges_src = all_edges_src g @ [src],
                all_edges_dst = all_edges_dst g @ [dst],
                num_edges = num_edges g + 1\<rparr>)"

subsection \<open>LineGraph\<close>

definition line_inner ::
  "bool \<Rightarrow> nat \<Rightarrow> dgl_id_t \<Rightarrow> EdgeList \<Rightarrow> nat \<Rightarrow> Graph \<Rightarrow> error + Graph" where
  "line_inner backtracking i u elist j lg =
     (if backtracking \<or> (\<not> backtracking \<and> succ elist ! j \<noteq> u)
      then bind_err (nth_err (edge_id elist) j) (\<lambda>e. AddEdge (word_of_nat i) e lg)
      else Inr lg)"

definition line_outer :: "Graph \<Rightarrow> bool \<Rightarrow> nat \<Rightarrow> Graph \<Rightarrow> error + Graph" where
  "line_outer g backtracking i lg =
     (let u = all_edges_src g ! i
      in bind_err (nth_err (all_edges_dst g) i) (\<lambda>v.
         bind_err (nth_err (adjlist g) (unat v)) (\<lambda>elist.
           fold_err (line_inner backtracking i u elist) [0 ..< length (succ elist)] lg)))"

definition LineGraph :: "Graph \<Rightarrow> bool \<Rightarrow> error + Graph" where
  "LineGraph g backtracking =
     fold_err (line_outer g backtracking) [0 ..< length (all_edges_src g)]
       (AddVertices (NumEdges g) empty_graph)"

subsection \<open>DisjointUnion of mutable graphs\<close>

definition union_edge :: "Graph \<Rightarrow> nat \<Rightarrow> nat \<Rightarrow> Graph \<Rightarrow> error + Graph" where
  "union_edge gr cumsum i rst =
     bind_err (nth_err (all_edges_src gr) i) (\<lambda>s.
     bind_err (nth_err (all_edges_dst gr) i) (\<lambda>d.
       AddEdge (s + word_of_nat cumsum) (d + word_of_nat cumsum) rst))"

definition union_graph :: "Graph \<Rightarrow> Graph \<times> nat \<Rightarrow> error + Graph \<times> nat" where
  "union_graph gr st =
     (let rst = fst st; cumsum = snd st
      in bind_err (fold_err (union_edge gr cumsum) [0 ..< NumEdges gr]
                     (AddVertices (NumVertices gr) rst))
           (\<lambda>rst'. Inr (rst', cumsum + NumVertices gr)))"

definition DisjointUnion :: "Graph list \<Rightarrow> error + Graph" where
  "DisjointUnion graphs =
     bind_err (fold_err union_graph graphs (empty_graph, 0)) (\<lambda>st. Inr (fst st))"

subsection \<open>DisjointPartitionBySizes and DisjointPartitionByNum of a mutable graph\<close>

fun map_err :: "('a \<Rightarrow> error + 'b) \<Rightarrow> 'a list \<Rightarrow> error + 'b list" where
  "map_err f [] = Inr []"
| "map_err f (x # xs) =
     (case f x of Inl e \<Rightarrow> Inl e
      | Inr y \<Rightarrow> (case map_err f xs of Inl e \<Rightarrow> Inl e | Inr ys \<Rightarrow> Inr (y # ys)))"

text \<open>
  The relabelling loop over one copied list, \<open>j\<close> below \<^verbatim>\<open>elist.succ.size()\<close>: it subtracts the
  node offset from \<^verbatim>\<open>succ[j]\<close> and the edge offset from \<^verbatim>\<open>edge_id[j]\<close>.
\<close>

definition relabel :: "dgl_id_t \<Rightarrow> dgl_id_t \<Rightarrow> EdgeList \<Rightarrow> error + EdgeList" where
  "relabel node_offset edge_offset elist =
     (if length (edge_id elist) < length (succ elist) then Inl OutOfRange
      else Inr \<lparr>succ = map (\<lambda>x. x - node_offset) (succ elist),
                edge_id = map (\<lambda>e. e - edge_offset) (take (length (succ elist)) (edge_id elist))
                            @ drop (length (succ elist)) (edge_id elist)\<rparr>)"

definition copy_edge ::
  "Graph \<Rightarrow> dgl_id_t \<Rightarrow> nat \<Rightarrow> dgl_id_t list \<times> dgl_id_t list
     \<Rightarrow> error + dgl_id_t list \<times> dgl_id_t list" where
  "copy_edge graph node_offset j acc =
     bind_err (nth_err (all_edges_src graph) j) (\<lambda>s.
     bind_err (nth_err (all_edges_dst graph) j) (\<lambda>d.
       Inr (fst acc @ [s - node_offset], snd acc @ [d - node_offset])))"

text \<open>
  One round of the partition loop. \<^verbatim>\<open>rst[i]\<close> is default-constructed until round \<open>i\<close> fills
  it, and the rounds run in order, so the model appends the finished graph. The state is the
  graphs so far with \<^verbatim>\<open>node_offset\<close> and \<^verbatim>\<open>edge_offset\<close>.
\<close>

definition partition_graph ::
  "Graph \<Rightarrow> int list \<Rightarrow> nat \<Rightarrow> Graph list \<times> nat \<times> nat \<Rightarrow> error + Graph list \<times> nat \<times> nat" where
  "partition_graph graph szs i st =
     (let rst = fst st; node_offset = fst (snd st); edge_offset = snd (snd st); sz = szs ! i
      in if sz < 0 \<or> length (adjlist graph) < node_offset + nat sz
              \<or> length (reverse_adjlist graph) < node_offset + nat sz
         then Inl OutOfRange
         else
           bind_err (map_err (relabel (word_of_nat node_offset) (word_of_nat edge_offset))
                       (take (nat sz) (drop node_offset (adjlist graph)))) (\<lambda>adj.
           let n_edges = sum_list (map (\<lambda>elist. length (succ elist)) adj)
           in bind_err (map_err (relabel (word_of_nat node_offset) (word_of_nat edge_offset))
                          (take (nat sz) (drop node_offset (reverse_adjlist graph)))) (\<lambda>radj.
              bind_err (fold_err (copy_edge graph (word_of_nat node_offset))
                          [edge_offset ..< edge_offset + n_edges] ([], [])) (\<lambda>es.
              let g = \<lparr>adjlist = adj, reverse_adjlist = radj, all_edges_src = fst es,
                       all_edges_dst = snd es, num_edges = n_edges\<rparr>
              in if int (NumVertices g) \<noteq> sz then Inl InvalidArgument
                 else if NumEdges g \<noteq> n_edges then Inl InvalidArgument
                 else Inr (rst @ [g], node_offset + nat sz, edge_offset + n_edges)))))"

definition DisjointPartitionBySizes :: "Graph \<Rightarrow> IdArray \<Rightarrow> error + Graph list" where
  "DisjointPartitionBySizes graph sizes =
     (let len = shape0 sizes
      in bind_err (cumsum_int64 0 (sizes_data sizes)) (\<lambda>cumsum.
         if cumsum ! len \<noteq> int (NumVertices graph) then Inl InvalidArgument
         else bind_err (fold_err (partition_graph graph (sizes_data sizes)) [0 ..< len] ([], 0, 0))
                (\<lambda>st. Inr (fst st))))"


section \<open>Specification-side definitions\<close>

text \<open>
  The running sums of a list of sizes as integers, from \<open>c\<close>: what \<^verbatim>\<open>cumsum\<close> holds when no
  sum overflows. The claims state vertex ranges and block boundaries with them.
\<close>

fun cumsum_from :: "int \<Rightarrow> int list \<Rightarrow> int list" where
  "cumsum_from c [] = [c]"
| "cumsum_from c (s # ss) = c # cumsum_from (c + s) ss"

text \<open>
  What the claim about \<^verbatim>\<open>ExpandIds\<close> expects: for each \<open>i\<close> below \<open>k\<close>, in order,
  \<^verbatim>\<open>offset[i+1] - offset[i]\<close> copies of \<^verbatim>\<open>ids[i]\<close>, the offsets read as the signed 64-bit
  integers the array's dtype declares.
\<close>

definition expanded :: "dgl_id_t list \<Rightarrow> dgl_id_t list \<Rightarrow> nat \<Rightarrow> dgl_id_t list" where
  "expanded id_data off_data k =
     concat (map (\<lambda>i. replicate (nat (sint (off_data ! (i + 1)) - sint (off_data ! i))) (id_data ! i))
               [0 ..< k])"

text \<open>
  What the claims about batching expect: the concatenation, over the inputs in order, of one
  field of each input, every entry shifted by the sum of a count over the preceding inputs.
\<close>

definition shifted_concat ::
  "('g \<Rightarrow> dgl_id_t list) \<Rightarrow> ('g \<Rightarrow> nat) \<Rightarrow> 'g list \<Rightarrow> dgl_id_t list" where
  "shifted_concat field count gs =
     concat (map (\<lambda>k. map (\<lambda>x. x + word_of_nat (sum_list (map count (take k gs)))) (field (gs ! k)))
               [0 ..< length gs])"

text \<open>
  The data model of a CSR (spec, section 3): \<open>indptr\<close> has the entry \<^verbatim>\<open>indptr[0] = 0\<close>, is
  non-decreasing as signed integers, and its last entry is the number of entries of
  \<open>indices\<close> and of \<open>edge_ids\<close>.
\<close>

definition wf_csr :: "CSR \<Rightarrow> bool" where
  "wf_csr c \<longleftrightarrow>
     indptr c \<noteq> [] \<and> sorted (map sint (indptr c)) \<and> indptr c ! 0 = 0 \<and>
     int (length (indices c)) = sint (last (indptr c)) \<and>
     length (edge_ids c) = length (indices c)"

text \<open>
  The contract of CSR partitioning: every neighbour id stored in a row of the vertex range
  \<open>[cumsum[i], cumsum[i+1])\<close> of partition \<open>i\<close> lies in that range.
\<close>

definition closed_under_edges :: "CSR \<Rightarrow> int list \<Rightarrow> bool" where
  "closed_under_edges c cumsum \<longleftrightarrow>
     (\<forall>i \<in> set [0 ..< length cumsum - 1].
        \<forall>t \<in> set [unat (indptr c ! nat (cumsum ! i)) ..< unat (indptr c ! nat (cumsum ! (i + 1)))].
          cumsum ! i \<le> uint (indices c ! t) \<and> uint (indices c ! t) < cumsum ! (i + 1))"

text \<open>
  The edges consumed by the partitions before partition \<open>i\<close>: the sum of their edge counts
  \<^verbatim>\<open>bg_indptr[end_pos] - bg_indptr[start_pos]\<close>.
\<close>

definition edges_before :: "dgl_id_t list \<Rightarrow> int list \<Rightarrow> nat \<Rightarrow> dgl_id_t" where
  "edges_before ip cumsum i =
     sum_list (map (\<lambda>j. ip ! nat (cumsum ! (j + 1)) - ip ! nat (cumsum ! j)) [0 ..< i])"

text \<open>The first vertex of partition \<open>i\<close>; its range ends before the first vertex of partition \<open>i + 1\<close>.\<close>

definition vertex_offset :: "IdArray \<Rightarrow> nat \<Rightarrow> nat" where
  "vertex_offset sizes i = nat (cumsum_from 0 (sizes_data sizes) ! i)"

text \<open>
  The partition that CSR partitioning is expected to return for the \<open>i\<close>-th of the vertex
  counts \<open>ns\<close> (spec, section 4.4), with the edges consumed so far read off \<open>indptr\<close>.
\<close>

definition expected_part :: "CSR \<Rightarrow> nat list \<Rightarrow> nat \<Rightarrow> ImmutableGraph" where
  "expected_part bg ns i =
     (let S = sum_list (take i ns); E = sum_list (take (Suc i) ns)
      in \<lparr>in_csr =
          \<lparr>indptr = 0 # map (\<lambda>k. indptr bg ! (S + 1 + k) - indptr bg ! S) [0 ..< E - S],
           indices = map (\<lambda>x. x - word_of_nat S)
             (take (unat (indptr bg ! E) - unat (indptr bg ! S)) (drop (unat (indptr bg ! S)) (indices bg))),
           edge_ids = map (\<lambda>x. x - indptr bg ! S)
             (take (unat (indptr bg ! E) - unat (indptr bg ! S)) (drop (unat (indptr bg ! S)) (edge_ids bg)))\<rparr>,
         out_csr = None\<rparr>)"

text \<open>
  The data model of a mutable graph (spec, section 3). Edge \<open>i\<close> is the triple of
  \<^verbatim>\<open>all_edges_src_[i]\<close>, \<^verbatim>\<open>all_edges_dst_[i]\<close> and the id \<open>i\<close>. The adjacency list of a vertex
  lists, in edge-id order, the destination and the id of every edge that leaves it, and the
  reverse adjacency list the source and the id of every edge that enters it: the lists that
  inserting the edges one by one in edge-id order builds. \<open>graph_of n xs ys\<close> is the graph
  of \<open>n\<close> vertices with the sources \<open>xs\<close> and the destinations \<open>ys\<close>; a graph is well-formed
  when it is the graph of its own vertex count and edge arrays, and every endpoint is one
  of its vertices.
\<close>

definition edge_triples ::
  "dgl_id_t list \<Rightarrow> dgl_id_t list \<Rightarrow> (dgl_id_t \<times> dgl_id_t \<times> dgl_id_t) list" where
  "edge_triples xs ys = zip xs (zip ys (map word_of_nat [0 ..< length xs]))"

definition out_edges :: "dgl_id_t list \<Rightarrow> dgl_id_t list \<Rightarrow> nat \<Rightarrow> EdgeList" where
  "out_edges xs ys v =
     (let es = filter (\<lambda>t. unat (fst t) = v) (edge_triples xs ys)
      in \<lparr>succ = map (\<lambda>t. fst (snd t)) es, edge_id = map (\<lambda>t. snd (snd t)) es\<rparr>)"

definition graph_of :: "nat \<Rightarrow> dgl_id_t list \<Rightarrow> dgl_id_t list \<Rightarrow> Graph" where
  "graph_of n xs ys =
     \<lparr>adjlist = map (out_edges xs ys) [0 ..< n],
      reverse_adjlist = map (out_edges ys xs) [0 ..< n],
      all_edges_src = xs, all_edges_dst = ys, num_edges = length xs\<rparr>"

definition endpoints_ok :: "nat \<Rightarrow> dgl_id_t list \<Rightarrow> dgl_id_t list \<Rightarrow> bool" where
  "endpoints_ok n xs ys \<longleftrightarrow>
     length ys = length xs \<and> (\<forall>x \<in> set xs. unat x < n) \<and> (\<forall>y \<in> set ys. unat y < n)"

definition wf_graph :: "Graph \<Rightarrow> bool" where
  "wf_graph g \<longleftrightarrow>
     endpoints_ok (NumVertices g) (all_edges_src g) (all_edges_dst g) \<and>
     g = graph_of (NumVertices g) (all_edges_src g) (all_edges_dst g)"

text \<open>
  The adjacency-list invariant of the spec: edge id \<open>i\<close> maps to the pair of
  \<^verbatim>\<open>all_edges_src_[i]\<close> and \<^verbatim>\<open>all_edges_dst_[i]\<close>, and that pair appears with edge id \<open>i\<close> in
  the adjacency list of its source and in the reverse adjacency list of its destination.
\<close>

definition adjacency_invariant :: "Graph \<Rightarrow> bool" where
  "adjacency_invariant g \<longleftrightarrow>
     length (all_edges_src g) = NumEdges g \<and> length (all_edges_dst g) = NumEdges g \<and>
     (\<forall>i \<in> set [0 ..< NumEdges g].
        unat (all_edges_src g ! i) < length (adjlist g) \<and>
        unat (all_edges_dst g ! i) < length (reverse_adjlist g) \<and>
        (all_edges_dst g ! i, word_of_nat i) \<in>
          set (zip (succ (adjlist g ! unat (all_edges_src g ! i)))
                   (edge_id (adjlist g ! unat (all_edges_src g ! i)))) \<and>
        (all_edges_src g ! i, word_of_nat i) \<in>
          set (zip (succ (reverse_adjlist g ! unat (all_edges_dst g ! i)))
                   (edge_id (reverse_adjlist g ! unat (all_edges_dst g ! i)))))"

text \<open>
  What \<^verbatim>\<open>DisjointUnion\<close> reads of an input graph: its vertex count and its two edge arrays,
  of \<^verbatim>\<open>NumEdges()\<close> entries each, every endpoint a vertex of the graph.
\<close>

definition edges_ok :: "Graph \<Rightarrow> bool" where
  "edges_ok g \<longleftrightarrow>
     length (all_edges_src g) = NumEdges g \<and>
     endpoints_ok (NumVertices g) (all_edges_src g) (all_edges_dst g)"

text \<open>
  What the claim about \<^verbatim>\<open>LineGraph\<close> expects: for every edge \<open>i\<close>, from \<open>u\<close> to \<open>v\<close>, and every
  edge \<open>j\<close> that leaves \<open>v\<close>, in edge-id order, the pair of \<open>i\<close> and \<open>j\<close>, unless backtracking is
  off and \<open>j\<close> leads back to \<open>u\<close>.
\<close>

definition line_row :: "Graph \<Rightarrow> bool \<Rightarrow> nat \<Rightarrow> (dgl_id_t \<times> dgl_id_t) list" where
  "line_row g backtracking i =
     map (\<lambda>j. (word_of_nat i, word_of_nat j))
       (filter (\<lambda>j. all_edges_src g ! j = all_edges_dst g ! i \<and>
                     (backtracking \<or> all_edges_dst g ! j \<noteq> all_edges_src g ! i))
          [0 ..< NumEdges g])"

definition line_edges :: "Graph \<Rightarrow> bool \<Rightarrow> (dgl_id_t \<times> dgl_id_t) list" where
  "line_edges g backtracking = concat (map (line_row g backtracking) [0 ..< NumEdges g])"

text \<open>
  An adjacency list as it stands in a disjoint union: its neighbour ids shifted by the
  vertices before the graph and its edge ids by the edges before the graph.
\<close>

definition shift_elist :: "nat \<Rightarrow> nat \<Rightarrow> EdgeList \<Rightarrow> EdgeList" where
  "shift_elist V E elist =
     \<lparr>succ = map (\<lambda>x. x + word_of_nat V) (succ elist),
      edge_id = map (\<lambda>e. e + word_of_nat E) (edge_id elist)\<rparr>"

text \<open>
  The layout of a graph that \<^verbatim>\<open>DisjointPartitionBySizes\<close> takes apart. The vertices of
  partition \<open>i\<close> are the block from \<^verbatim>\<open>cumsum[i]\<close> up to \<^verbatim>\<open>cumsum[i + 1]\<close>; \<open>block_of\<close> is the
  index of the block that holds a vertex, the number of block ends at or below it. No edge
  crosses a block when the two endpoints of every edge lie in one block, and the edges are
  in block order when their blocks do not decrease along the edge ids, so that the edges of
  each partition are a contiguous range of edge ids and the ranges follow the order of the
  partitions.
\<close>

definition block_of :: "int list \<Rightarrow> dgl_id_t \<Rightarrow> nat" where
  "block_of cumsum v = length (filter (\<lambda>c. c \<le> uint v) (tl cumsum))"

definition no_crossing_edge :: "Graph \<Rightarrow> int list \<Rightarrow> bool" where
  "no_crossing_edge g cumsum \<longleftrightarrow>
     map (block_of cumsum) (all_edges_dst g) = map (block_of cumsum) (all_edges_src g)"

definition edges_in_block_order :: "Graph \<Rightarrow> int list \<Rightarrow> bool" where
  "edges_in_block_order g cumsum \<longleftrightarrow> sorted (map (block_of cumsum) (all_edges_src g))"

section \<open>Properties\<close>

subsection \<open>Fallible loops and 64-bit words\<close>

lemma fold_err_append:
  "fold_err f (xs @ ys) s = bind_err (fold_err f xs s) (fold_err f ys)"
  by (induction xs arbitrary: s) (auto simp: bind_err_def split: sum.splits)

lemma fold_store_run:
  "length xs = a \<Longrightarrow> k \<le> r \<Longrightarrow> (\<forall>j<k. ix j = a + j) \<Longrightarrow>
   fold_err (\<lambda>j buf. store buf (ix j) (Some v)) [0 ..< k] (xs @ replicate r None)
     = Inr (xs @ replicate k (Some v) @ replicate (r - k) None)"
proof (induction k)
  case 0
  then show ?case by simp
next
  case (Suc k)
  have upd: "(xs @ replicate k (Some v) @ replicate (r - k) None)[a + k := Some v]
      = xs @ replicate (Suc k) (Some v) @ replicate (r - Suc k) None"
  proof -
    from Suc.prems have "r - k = Suc (r - Suc k)" by simp
    then show ?thesis
      using Suc.prems(1)
      by (simp add: list_update_append replicate_append_same)
  qed
  from Suc show ?case
    by (simp add: fold_err_append bind_err_def store_def upd)
qed

lemma unat_small_sint:
  fixes w :: dgl_id_t
  assumes "unat w < 2 ^ 63"
  shows "sint w = int (unat w)"
proof -
  have "int (unat w) < 2 ^ 63"
    using assms by (simp only: of_nat_less_numeral_power_cancel_iff)
  then have hi: "uint w < 2 ^ 63" by simp
  have "(0::int) \<le> uint w" by simp
  moreover have "- (2 ^ 63) \<le> (0::int)" by simp
  ultimately have lo: "- (2 ^ 63) \<le> uint w" by (rule order_trans [rotated])
  have "signed_take_bit 63 (uint w) = uint w"
    by (rule signed_take_bit_int_eq_self [OF lo hi])
  moreover have "sint w = signed_take_bit 63 (uint w)"
    using sint_uint [of w] by simp
  ultimately show ?thesis by simp
qed

lemma sint_nonneg_unat:
  fixes w :: dgl_id_t
  assumes "0 \<le> sint w"
  shows "int (unat w) = sint w"
proof -
  have "sint w < 2 ^ 64" using sint_lt [of w] by simp
  with assms have "take_bit 64 (sint w) = sint w"
    by (intro take_bit_int_eq_self) simp_all
  then show ?thesis using uint_sint [of w] by simp
qed

lemma sint_nonneg_bound:
  fixes w :: dgl_id_t
  assumes "0 \<le> sint w"
  shows "unat w < 2 ^ 63"
proof -
  have "sint w < 2 ^ 63" using sint_lt [of w] by simp
  with sint_nonneg_unat [OF assms] have "int (unat w) < 2 ^ 63" by (simp only:)
  then show ?thesis by (simp only: of_nat_less_numeral_power_cancel_iff)
qed

lemma unat_of_nat64: "j < 2 ^ 64 \<Longrightarrow> unat (word_of_nat j :: dgl_id_t) = j"
  by (simp add: unat_of_nat)

lemma sint_of_nat64:
  assumes "n < 2 ^ 63"
  shows "sint (word_of_nat n :: dgl_id_t) = int n"
proof -
  from assms have "n < 2 ^ 64" by simp
  then have u: "unat (word_of_nat n :: dgl_id_t) = n" by (rule unat_of_nat64)
  then have "unat (word_of_nat n :: dgl_id_t) < 2 ^ 63" using assms by simp
  then have "sint (word_of_nat n :: dgl_id_t) = int (unat (word_of_nat n :: dgl_id_t))"
    by (rule unat_small_sint)
  then show ?thesis by (simp only: u)
qed

lemma unat_add_small:
  fixes w :: dgl_id_t
  assumes "unat w + j < 2 ^ 64"
  shows "unat (w + word_of_nat j) = unat w + j"
proof -
  from assms have j: "unat (word_of_nat j :: dgl_id_t) = j"
    by (intro unat_of_nat64) simp
  have "unat w + unat (word_of_nat j :: dgl_id_t) < 2 ^ LENGTH(64)"
    using assms by (simp only: j) simp
  then have "unat (w + word_of_nat j) = unat w + unat (word_of_nat j :: dgl_id_t)"
    by (simp only: unat_add_lem)
  then show ?thesis by (simp only: j)
qed

lemma unat_sub_le:
  fixes a b :: dgl_id_t
  assumes "unat a \<le> unat b"
  shows "unat (b - a) = unat b - unat a"
  by (metis assms unat_sub word_less_eq_iff_unsigned)


subsection \<open>ExpandIds\<close>

lemma expand_one_run:
  assumes le: "unat (off ! i) \<le> unat (off ! Suc i)"
    and small: "unat (off ! Suc i) < 2 ^ 63"
    and len: "length xs = unat (off ! i)"
    and room: "unat (off ! Suc i) - unat (off ! i) \<le> r"
  shows "expand_one ids off i (xs @ replicate r None) =
    Inr (xs @ replicate (unat (off ! Suc i) - unat (off ! i)) (Some (ids ! i))
           @ replicate (r - (unat (off ! Suc i) - unat (off ! i))) None)"
proof -
  let ?a = "unat (off ! i)" and ?b = "unat (off ! Suc i)"
  have d: "unat (off ! Suc i - off ! i) = ?b - ?a"
    by (rule unat_sub_le [OF le])
  then have "unat (off ! Suc i - off ! i) < 2 ^ 63" using small by simp
  then have "sint (off ! Suc i - off ! i) = int (?b - ?a)"
    using d unat_small_sint by metis
  then have n: "nat (sint (off ! Suc i - off ! i)) = ?b - ?a" by simp
  have ix: "\<forall>j < ?b - ?a. unat (off ! i + word_of_nat j) = ?a + j"
  proof (intro allI impI)
    fix j assume "j < ?b - ?a"
    then have "?a + j < ?b" by simp
    also have "?b < 2 ^ 64" using small by simp
    finally show "unat (off ! i + word_of_nat j) = ?a + j" by (rule unat_add_small)
  qed
  have "expand_one ids off i (xs @ replicate r None) =
      fold_err (\<lambda>j buf. store buf (unat (off ! i + word_of_nat j)) (Some (ids ! i)))
        [0 ..< ?b - ?a] (xs @ replicate r None)"
    unfolding expand_one_def Let_def by (simp only: Suc_eq_plus1 [symmetric] n)
  also have "\<dots> = Inr (xs @ replicate (?b - ?a) (Some (ids ! i)) @ replicate (r - (?b - ?a)) None)"
    by (rule fold_store_run [OF len room ix])
  finally show ?thesis .
qed

lemma sorted_sint_facts:
  fixes off :: "dgl_id_t list"
  assumes srt: "sorted (map sint off)" and z: "off ! 0 = 0" and i: "i \<le> j" and j: "j < length off"
  shows "unat (off ! i) \<le> unat (off ! j)" "unat (off ! j) < 2 ^ 63"
    "int (unat (off ! j)) = sint (off ! j)"
proof -
  have mono: "\<And>a b. a \<le> b \<Longrightarrow> b < length off \<Longrightarrow> sint (off ! a) \<le> sint (off ! b)"
    using srt by (simp add: sorted_iff_nth_mono)
  have nn: "\<And>b. b < length off \<Longrightarrow> 0 \<le> sint (off ! b)"
    using mono [of 0] z by simp
  have "0 \<le> sint (off ! j)" using nn j by simp
  then show b: "unat (off ! j) < 2 ^ 63" and c: "int (unat (off ! j)) = sint (off ! j)"
    by (rule sint_nonneg_bound, rule sint_nonneg_unat)
  have "0 \<le> sint (off ! i)" using nn i j by simp
  then have "int (unat (off ! i)) = sint (off ! i)" by (rule sint_nonneg_unat)
  with c mono [OF i j] show "unat (off ! i) \<le> unat (off ! j)" by linarith
qed

lemma expanded_Suc:
  "expanded ids off (Suc k) =
     expanded ids off k @ replicate (nat (sint (off ! Suc k) - sint (off ! k))) (ids ! k)"
  by (simp add: expanded_def)

lemma expand_loop:
  assumes srt: "sorted (map sint off)" and z: "off ! 0 = 0" and n: "length off = Suc n"
  shows "k \<le> n \<Longrightarrow>
    length (expanded ids off k) = unat (off ! k) \<and>
    fold_err (expand_one ids off) [0 ..< k] (replicate (unat (off ! n)) None) =
      Inr (map Some (expanded ids off k) @ replicate (unat (off ! n) - unat (off ! k)) None)"
proof (induction k)
  case 0
  then show ?case using z by (simp add: expanded_def)
next
  case (Suc k)
  let ?a = "unat (off ! k)" and ?b = "unat (off ! Suc k)" and ?L = "unat (off ! n)"
  let ?E = "expanded ids off k"
  from Suc.prems n have k: "k \<le> Suc k" "Suc k < length off" "Suc k \<le> n" "n < length off" "k < length off"
    by simp_all
  have le: "?a \<le> ?b" and small: "?b < 2 ^ 63"
    using sorted_sint_facts [OF srt z k(1) k(2)] by simp_all
  have sb: "int ?b = sint (off ! Suc k)"
    using sorted_sint_facts(3) [OF srt z k(1) k(2)] .
  have sa: "int ?a = sint (off ! k)"
    using sorted_sint_facts(3) [OF srt z order_refl k(5)] .
  have cnt: "nat (sint (off ! Suc k) - sint (off ! k)) = ?b - ?a"
    using sa sb le by linarith
  have bL: "?b \<le> ?L" using sorted_sint_facts(1) [OF srt z k(3) k(4)] .
  from Suc have IH: "length ?E = ?a"
    "fold_err (expand_one ids off) [0 ..< k] (replicate ?L None) =
       Inr (map Some ?E @ replicate (?L - ?a) None)"
    by simp_all
  have room: "?b - ?a \<le> ?L - ?a" using bL by simp
  have len: "length (map Some ?E) = ?a" using IH(1) by simp
  have step: "expand_one ids off k (map Some ?E @ replicate (?L - ?a) None) =
      Inr (map Some ?E @ replicate (?b - ?a) (Some (ids ! k))
             @ replicate (?L - ?a - (?b - ?a)) None)"
    by (rule expand_one_run [OF le small len room])
  have rest: "?L - ?a - (?b - ?a) = ?L - ?b" using le bL by simp
  have E: "expanded ids off (Suc k) = ?E @ replicate (?b - ?a) (ids ! k)"
    by (simp only: expanded_Suc cnt)
  have "length (expanded ids off (Suc k)) = ?b"
    using IH(1) le by (simp add: E)
  moreover have "fold_err (expand_one ids off) [0 ..< Suc k] (replicate ?L None) =
      Inr (map Some (expanded ids off (Suc k)) @ replicate (?L - ?b) None)"
  proof -
    have "fold_err (expand_one ids off) [0 ..< Suc k] (replicate ?L None) =
        expand_one ids off k (map Some ?E @ replicate (?L - ?a) None)"
      by (simp add: fold_err_append bind_err_def IH(2) split: sum.splits)
    also note step
    also have "map Some ?E @ replicate (?b - ?a) (Some (ids ! k)) @ replicate (?L - ?a - (?b - ?a)) None
        = map Some (expanded ids off (Suc k)) @ replicate (?L - ?b) None"
      by (simp only: rest E map_append map_replicate append_assoc)
    finally show ?thesis .
  qed
  ultimately show ?case by simp
qed

text \<open>
  Claim C9. For an \<open>ids\<close> array of length \<open>n\<close> and an \<open>offset\<close> array of length \<open>n + 1\<close> that is
  non-decreasing and starts at 0, \<^verbatim>\<open>ExpandIds\<close> returns an array of length \<^verbatim>\<open>offset[n]\<close>, every
  cell written, that is the in-order concatenation of \<^verbatim>\<open>offset[i+1] - offset[i]\<close> copies of
  \<^verbatim>\<open>ids[i]\<close>; and it fails with \<open>InvalidArgument\<close> whenever the offset array is not exactly one
  longer than the ids array.
\<close>

theorem ExpandIds_spec:
  "(shape0 offset \<noteq> shape0 ids + 1 \<longrightarrow> ExpandIds ids offset = Inl InvalidArgument) \<and>
   (shape0 offset = shape0 ids + 1 \<and> sorted (map sint (data offset)) \<and> data offset ! 0 = 0 \<longrightarrow>
      (\<exists>rst. ExpandIds ids offset = Inr rst \<and>
         int (length (data rst)) = sint (data offset ! shape0 ids) \<and>
         data rst = map Some (expanded (data ids) (data offset) (shape0 ids))))"
proof (intro conjI impI)
  assume "shape0 offset \<noteq> shape0 ids + 1"
  then show "ExpandIds ids offset = Inl InvalidArgument"
    by (simp add: ExpandIds_def Let_def)
next
  assume a: "shape0 offset = shape0 ids + 1 \<and> sorted (map sint (data offset)) \<and> data offset ! 0 = 0"
  let ?n = "length (data ids)" and ?off = "data offset"
  let ?E = "expanded (data ids) ?off ?n"
  from a have n: "length ?off = Suc ?n" and srt: "sorted (map sint ?off)" and z: "?off ! 0 = 0"
    by (simp_all add: shape0_def)
  have nlt: "?n < length ?off" using n by simp
  have sL: "int (unat (?off ! ?n)) = sint (?off ! ?n)"
    using sorted_sint_facts(3) [OF srt z order_refl nlt] .
  then have nn: "\<not> sint (?off ! ?n) < 0" by linarith
  have L: "nat (sint (?off ! ?n)) = unat (?off ! ?n)" using sL by linarith
  from expand_loop [OF srt z n order_refl, of "data ids"]
  have len: "length ?E = unat (?off ! ?n)"
    and loop: "fold_err (expand_one (data ids) ?off) [0 ..< ?n] (replicate (unat (?off ! ?n)) None) =
      Inr (map Some ?E)"
    by simp_all
  have e: "Empty (sint (?off ! ?n)) =
      Inr \<lparr>device_type = kDLCPU, ndim = 1, dtype_code = kDLInt, dtype_bits = 64,
           data = replicate (unat (?off ! ?n)) None\<rparr>"
    using nn by (simp only: Empty_def L if_False)
  have "ExpandIds ids offset =
      Inr \<lparr>device_type = kDLCPU, ndim = 1, dtype_code = kDLInt, dtype_bits = 64,
           data = map Some ?E\<rparr>"
    unfolding ExpandIds_def Let_def shape0_def
    using n by (simp add: e bind_err_def loop)
  then show "\<exists>rst. ExpandIds ids offset = Inr rst \<and>
         int (length (data rst)) = sint (?off ! shape0 ids) \<and>
         data rst = map Some (expanded (data ids) ?off (shape0 ids))"
    using len sL by (simp add: shape0_def)
qed

theorem ExpandIds_spec_witness:
  "ExpandIds (id_array [5]) (id_array [0]) = Inl InvalidArgument \<and>
   (\<exists>rst. ExpandIds (id_array [5, 7]) (id_array [0, 2, 3]) = Inr rst \<and>
      data rst = [Some 5, Some 5, Some 7])"
  using ExpandIds_spec [of "id_array [0]" "id_array [5]"]
    ExpandIds_spec [of "id_array [0, 2, 3]" "id_array [5, 7]"]
  by (auto simp: id_array_def shape0_def expanded_def numeral_2_eq_2)

subsection \<open>MapParentIdToSubgraphId\<close>

lemma find_pos_le: "find_pos xs x \<le> length xs"
  by (induction xs) auto

lemma find_pos_less_iff: "find_pos xs x < length xs \<longleftrightarrow> x \<in> set xs"
  by (induction xs) auto

lemma find_pos_nth: "distinct xs \<Longrightarrow> p < length xs \<Longrightarrow> find_pos xs (xs ! p) = p"
proof (induction xs arbitrary: p)
  case Nil
  then show ?case by simp
next
  case (Cons y ys)
  show ?case
  proof (cases p)
    case 0
    then show ?thesis by simp
  next
    case (Suc k)
    with Cons.prems have "k < length ys" "ys ! k \<in> set ys" "y \<notin> set ys" by auto
    then have "y \<noteq> ys ! k" by metis
    with Cons.IH [of k] Cons.prems Suc show ?thesis by simp
  qed
qed

lemma build_parent_map_distinct:
  "distinct xs \<Longrightarrow>
   build_parent_map xs i m x =
     (if x \<in> set xs then Some (word_of_nat (i + find_pos xs x)) else m x)"
  by (induction xs arbitrary: i m) auto

lemma hash_lookup_scan_lookup:
  "distinct xs \<Longrightarrow> hash_lookup xs x = scan_lookup xs x"
  using find_pos_less_iff [of xs x] find_pos_le [of xs x]
  by (auto simp: hash_lookup_def scan_lookup_def build_parent_map_distinct Let_def)

lemma scan_lookup_present:
  "distinct xs \<Longrightarrow> p < length xs \<Longrightarrow> scan_lookup xs (xs ! p) = word_of_nat p"
  by (simp add: scan_lookup_def find_pos_nth)

lemma scan_lookup_absent: "x \<notin> set xs \<Longrightarrow> scan_lookup xs x = - 1"
  using find_pos_less_iff [of xs x] find_pos_le [of xs x]
  by (auto simp: scan_lookup_def)

text \<open>
  Claim C6, as stated, fails: on a parent array with a repeated value the scan returns the
  first position of the value and the hash map keeps the last, so the two strategies differ.
\<close>

theorem strategies_differ_on_duplicates:
  "scan_strategy [1, 1] [1] = [0] \<and> hash_strategy [1, 1] [1] = [1]"
  by (simp add: scan_strategy_def hash_strategy_def scan_lookup_def hash_lookup_def)

text \<open>
  Claim C6, amended. For every parent array of valid form whose values are unique, and every
  valid query array: the scan-based and the hash-map-based strategy compute the same array,
  so \<^verbatim>\<open>MapParentIdToSubgraphId\<close> returns it whichever branch runs; and each output element is the
  position of the queried id in the parent array when present, and \<open>-1\<close> when absent.
\<close>

theorem MapParentIdToSubgraphId_unique:
  assumes "IsValidIdArray parent_vids" and "IsValidIdArray query"
    and "distinct (data parent_vids)"
  shows "scan_strategy (data parent_vids) (data query) = hash_strategy (data parent_vids) (data query) \<and>
    (\<exists>rst. MapParentIdToSubgraphId parent_vids query = Inr rst \<and>
       data rst = scan_strategy (data parent_vids) (data query) \<and>
       length (data rst) = length (data query) \<and>
       (\<forall>i < length (data query).
          (\<forall>p < length (data parent_vids).
             data parent_vids ! p = data query ! i \<longrightarrow> data rst ! i = word_of_nat p) \<and>
          (data query ! i \<notin> set (data parent_vids) \<longrightarrow> data rst ! i = - 1)))"
proof -
  let ?P = "data parent_vids" and ?Q = "data query"
  have eq: "scan_strategy ?P ?Q = hash_strategy ?P ?Q"
    using assms(3) by (simp add: scan_strategy_def hash_strategy_def hash_lookup_scan_lookup)
  then have run: "MapParentIdToSubgraphId parent_vids query = Inr (id_array (scan_strategy ?P ?Q))"
    using assms(1,2) by (simp add: MapParentIdToSubgraphId_def)
  have elems: "\<forall>i < length ?Q.
      (\<forall>p < length ?P. ?P ! p = ?Q ! i \<longrightarrow> scan_strategy ?P ?Q ! i = word_of_nat p) \<and>
      (?Q ! i \<notin> set ?P \<longrightarrow> scan_strategy ?P ?Q ! i = - 1)"
  proof (intro allI impI conjI)
    fix i p
    assume "i < length ?Q" "p < length ?P" "?P ! p = ?Q ! i"
    then show "scan_strategy ?P ?Q ! i = word_of_nat p"
      using scan_lookup_present [OF assms(3), of p] by (simp add: scan_strategy_def)
  next
    fix i
    assume "i < length ?Q" "?Q ! i \<notin> set ?P"
    then show "scan_strategy ?P ?Q ! i = - 1"
      by (simp add: scan_strategy_def scan_lookup_absent)
  qed
  have len: "length (scan_strategy ?P ?Q) = length ?Q"
    by (simp add: scan_strategy_def)
  have "data (id_array (scan_strategy ?P ?Q)) = scan_strategy ?P ?Q"
    by (simp add: id_array_def)
  with run len elems have "\<exists>rst. MapParentIdToSubgraphId parent_vids query = Inr rst \<and>
       data rst = scan_strategy ?P ?Q \<and> length (data rst) = length ?Q \<and>
       (\<forall>i < length ?Q.
          (\<forall>p < length ?P. ?P ! p = ?Q ! i \<longrightarrow> data rst ! i = word_of_nat p) \<and>
          (?Q ! i \<notin> set ?P \<longrightarrow> data rst ! i = - 1))"
    by (intro exI [of _ "id_array (scan_strategy ?P ?Q)"]) (simp only: simp_thms)
  with eq show ?thesis by (rule conjI)
qed

theorem MapParentIdToSubgraphId_unique_witness:
  "scan_strategy [7, 3] [3, 9] = hash_strategy [7, 3] [3, 9] \<and>
   (\<exists>rst. MapParentIdToSubgraphId (id_array [7, 3]) (id_array [3, 9]) = Inr rst \<and>
      data rst = [1, - 1])"
proof -
  have v: "IsValidIdArray (id_array [7, 3])" "IsValidIdArray (id_array [3, 9])"
    by (simp_all add: id_array_def IsValidIdArray_def)
  have d: "distinct (data (id_array [7, 3]))"
    by (simp add: id_array_def)
  have s: "scan_strategy (data (id_array [7, 3])) (data (id_array [3, 9])) = [1, - 1]"
    by (simp add: id_array_def scan_strategy_def scan_lookup_def)
  have dA: "data (id_array [7, 3]) = [7, 3]" and dB: "data (id_array [3, 9]) = [3, 9]"
    by (simp_all add: id_array_def)
  from MapParentIdToSubgraphId_unique [OF v d]
  have e: "scan_strategy (data (id_array [7, 3])) (data (id_array [3, 9])) =
      hash_strategy (data (id_array [7, 3])) (data (id_array [3, 9]))"
    and r: "\<exists>rst. MapParentIdToSubgraphId (id_array [7, 3]) (id_array [3, 9]) = Inr rst \<and>
      data rst = scan_strategy (data (id_array [7, 3])) (data (id_array [3, 9]))"
    by blast+
  from r have "\<exists>rst. MapParentIdToSubgraphId (id_array [7, 3]) (id_array [3, 9]) = Inr rst \<and>
      data rst = [1, - 1]"
    by (simp only: s)
  moreover from e have "scan_strategy [7, 3] [3, 9] = hash_strategy [7, 3] [3, 9]"
    by (simp only: dA dB)
  ultimately show ?thesis by (rule conjI [rotated])
qed

subsection \<open>The validity check at the array boundary\<close>

lemma MapParentIdToSubgraphId_validates:
  "MapParentIdToSubgraphId parent_vids query = Inl InvalidArgument \<longleftrightarrow>
     \<not> (IsValidIdArray parent_vids \<and> IsValidIdArray query)"
  by (simp add: MapParentIdToSubgraphId_def)

text \<open>
  Claim C7 asks every operation that takes an array to reject one that is not host-resident,
  one-dimensional, signed and 64 bits wide. \<^verbatim>\<open>MapParentIdToSubgraphId\<close> does
  (\<open>MapParentIdToSubgraphId_validates\<close>); \<^verbatim>\<open>ExpandIds\<close> never calls \<^verbatim>\<open>IsValidIdArray\<close>: given
  an ids array of unsigned dtype, which the predicate refuses, it computes and returns a result.
\<close>

theorem ExpandIds_accepts_invalid_array:
  "IsValidIdArray ((id_array [5, 7])\<lparr>dtype_code := kDLUInt\<rparr>) = False \<and>
   ExpandIds ((id_array [5, 7])\<lparr>dtype_code := kDLUInt\<rparr>) (id_array [0, 2, 3]) =
     Inr \<lparr>device_type = kDLCPU, ndim = 1, dtype_code = kDLInt, dtype_bits = 64,
          data = [Some 5, Some 5, Some 7]\<rparr>"
  by code_simp

subsection \<open>More on fallible loops\<close>

lemma bind_err_Inr [simp]: "bind_err (Inr x) f = f x"
  by (simp add: bind_err_def)

lemma bind_err_Inl [simp]: "bind_err (Inl e) f = Inl e"
  by (simp add: bind_err_def)

lemma shifted_concat_snoc:
  "shifted_concat f c (gs @ [g]) =
     shifted_concat f c gs @ map (\<lambda>x. x + word_of_nat (sum_list (map c gs))) (f g)"
proof -
  have "map (\<lambda>k. map (\<lambda>x. x + word_of_nat (sum_list (map c (take k (gs @ [g]))))) (f ((gs @ [g]) ! k)))
          [0 ..< length gs]
      = map (\<lambda>k. map (\<lambda>x. x + word_of_nat (sum_list (map c (take k gs)))) (f (gs ! k)))
          [0 ..< length gs]"
    by (rule map_cong) (simp_all add: nth_append)
  moreover have "[0 ..< length (gs @ [g])] = [0 ..< length gs] @ [length gs]" by simp
  ultimately show ?thesis
    unfolding shifted_concat_def by (simp only: map_append concat_append) simp
qed

lemma shifted_concat_Nil: "shifted_concat f c [] = []"
  by (simp add: shifted_concat_def)

lemma fold_store_seq:
  "length vs \<le> r \<Longrightarrow>
   fold_err (\<lambda>v (ip, idx). bind_err (store ip idx (h v)) (\<lambda>ip'. Inr (ip', idx + 1)))
     vs (pre @ replicate r z, length pre)
   = Inr (pre @ map h vs @ replicate (r - length vs) z, length pre + length vs)"
proof (induction vs arbitrary: pre r)
  case Nil
  then show ?case by simp
next
  case (Cons v vs)
  then obtain r' where r: "r = Suc r'" and le: "length vs \<le> r'"
    by (cases r) auto
  have st: "store (pre @ replicate r z) (length pre) (h v) = Inr ((pre @ [h v]) @ replicate r' z)"
    by (simp add: store_def r)
  have "fold_err (\<lambda>v (ip, idx). bind_err (store ip idx (h v)) (\<lambda>ip'. Inr (ip', idx + 1)))
      (v # vs) (pre @ replicate r z, length pre)
    = fold_err (\<lambda>v (ip, idx). bind_err (store ip idx (h v)) (\<lambda>ip'. Inr (ip', idx + 1)))
      vs ((pre @ [h v]) @ replicate r' z, length (pre @ [h v]))"
    by (simp only: fold_err.simps prod.case st bind_err_Inr sum.case length_append_singleton Suc_eq_plus1)
  also note Cons.IH [OF le, of "pre @ [h v]"]
  finally show ?case by (simp add: r)
qed

lemma map_nth_from_1: "map (\<lambda>i. h (xs ! i)) [Suc 0 ..< length xs] = map h (tl xs)"
proof (cases xs)
  case Nil
  then show ?thesis by simp
next
  case (Cons y ys)
  have "map (\<lambda>i. h ((y # ys) ! i)) [Suc 0 ..< Suc (length ys)] = map (\<lambda>i. h (ys ! i)) [0 ..< length ys]"
    by (simp only: map_Suc_upt [symmetric] map_map) simp
  also have "\<dots> = map h (map ((!) ys) [0 ..< length ys])"
    by (simp only: map_map o_def)
  also have "\<dots> = map h ys"
    by (simp only: map_nth)
  finally show ?thesis using Cons by simp
qed


lemma fold_err_snoc: "fold_err f (xs @ [x]) s = bind_err (fold_err f xs s) (f x)"
  by (induction xs arbitrary: s) (auto split: sum.splits)

lemma fold_err_map: "fold_err f (map g xs) s = fold_err (\<lambda>x. f (g x)) xs s"
  by (induction xs arbitrary: s) (auto split: sum.splits)

lemma upto_as_nat: "[a .. b - 1] = map (\<lambda>k. a + int k) [0 ..< nat (b - a)]"
  by (rule nth_equalityI) simp_all

lemma fold_store_idx:
  "length pre = a \<Longrightarrow> n \<le> r \<Longrightarrow>
   (\<And>k buf. k < n \<Longrightarrow> f k buf = store buf (a + k) (h k)) \<Longrightarrow>
   fold_err f [0 ..< n] (pre @ replicate r z) = Inr (pre @ map h [0 ..< n] @ replicate (r - n) z)"
proof (induction n)
  case 0
  then show ?case by simp
next
  case (Suc n)
  from Suc.prems have r: "r - n = Suc (r - Suc n)" by simp
  have IH: "fold_err f [0 ..< n] (pre @ replicate r z) =
      Inr (pre @ map h [0 ..< n] @ replicate (r - n) z)"
    using Suc by simp
  have "f n (pre @ map h [0 ..< n] @ replicate (r - n) z) =
      store (pre @ map h [0 ..< n] @ replicate (r - n) z) (a + n) (h n)"
    using Suc.prems(3) [of n] by simp
  also have "\<dots> = Inr (pre @ map h [0 ..< Suc n] @ replicate (r - Suc n) z)"
    using Suc.prems(1) by (simp add: store_def r list_update_append)
  finally show ?case
    by (simp only: upt_Suc_append [OF le0] fold_err_snoc IH bind_err_Inr)
qed

lemma fold_push_idx:
  "(\<And>k acc. k < n \<Longrightarrow> f k acc = Inr (acc @ [h k])) \<Longrightarrow>
   fold_err f [0 ..< n] acc = Inr (acc @ map h [0 ..< n])"
proof (induction n)
  case 0
  then show ?case by simp
next
  case (Suc n)
  then have IH: "fold_err f [0 ..< n] acc = Inr (acc @ map h [0 ..< n])" by simp
  show ?case
    by (simp only: upt_Suc_append [OF le0] fold_err_snoc IH bind_err_Inr Suc.prems [of n, OF lessI])
       simp
qed

lemma map_nth_slice: "a + n \<le> length xs \<Longrightarrow> map (\<lambda>k. h (xs ! (a + k))) [0 ..< n] = map h (take n (drop a xs))"
  by (rule nth_equalityI) simp_all

lemma cumsum_from_length [simp]: "length (cumsum_from c ss) = Suc (length ss)"
  by (induction ss arbitrary: c) simp_all

lemma cumsum_from_nth:
  "i \<le> length ss \<Longrightarrow> cumsum_from c ss ! i = c + sum_list (take i ss)"
proof (induction ss arbitrary: c i)
  case Nil
  then show ?case by simp
next
  case (Cons s ss)
  then show ?case by (cases i) simp_all
qed




lemma int32_small: "- (2 ^ 31) \<le> x \<Longrightarrow> x < 2 ^ 31 \<Longrightarrow> int32 x = x"
  unfolding int32_def sint_sbintrunc' by (simp add: signed_take_bit_int_eq_self)

lemma for_int_fold:
  "bound \<le> 2 ^ 31 - 1 \<Longrightarrow> for_int l bound body s = fold_err body [l .. bound - 1] s"
proof (induction l bound body s rule: for_int.induct)
  case (1 l bound body s)
  show ?case
  proof (cases "l < bound")
    case True
    then have u: "[l .. bound - 1] = l # [l + 1 .. bound - 1]"
      by (simp add: upto_rec1)
    from True "1.prems" have ne: "l \<noteq> 2 ^ 31 - 1" by simp
    show ?thesis
    proof (cases "body l s")
      case (Inl e)
      then show ?thesis using True by (subst for_int.simps) (simp add: u)
    next
      case (Inr s')
      from "1.IH" [OF True Inr ne "1.prems"] show ?thesis
        using True Inr ne by (subst for_int.simps) (simp add: u)
    qed
  next
    case False
    then show ?thesis by (subst for_int.simps) simp
  qed
qed

lemma for_int_overflow:
  "(\<forall>l s e. body l s = Inl e \<longrightarrow> e = OutOfRange) \<Longrightarrow> l \<le> 2 ^ 31 - 1 \<Longrightarrow>
   2 ^ 31 - 1 < bound \<Longrightarrow> for_int l bound body s = Inl OutOfRange"
proof (induction l bound body s rule: for_int.induct)
  case (1 l bound body s)
  from "1.prems" have lt: "l < bound" by simp
  show ?case
  proof (cases "body l s")
    case (Inl e)
    then have "e = OutOfRange" using "1.prems"(1) by blast
    then show ?thesis using lt Inl by (subst for_int.simps) simp
  next
    case (Inr s')
    show ?thesis
    proof (cases "l = 2 ^ 31 - 1")
      case True
      then show ?thesis using lt Inr by (subst for_int.simps) simp
    next
      case False
      then have "l + 1 \<le> 2 ^ 31 - 1" using "1.prems"(2) by simp
      from "1.IH" [OF lt Inr False "1.prems"(1) this "1.prems"(3)] show ?thesis
        using lt Inr False by (subst for_int.simps) simp
    qed
  qed
qed


lemma cumsum_int64_eq:
  "cumsum_int64 c ss =
     (if \<forall>x \<in> set (tl (cumsum_from c ss)). - (2 ^ 63) \<le> x \<and> x < 2 ^ 63
      then Inr (cumsum_from c ss) else Inl OutOfRange)"
proof (induction ss arbitrary: c)
  case Nil
  then show ?case by simp
next
  case (Cons s ss)
  have t: "tl (cumsum_from c (s # ss)) = (c + s) # tl (cumsum_from (c + s) ss)"
    by (cases ss) simp_all
  show ?case unfolding t by (auto simp: Cons.IH)
qed

lemma cumsum_from_set:
  "x \<in> set (cumsum_from c ss) \<Longrightarrow> \<exists>i \<le> length ss. x = c + sum_list (take i ss)"
proof -
  assume "x \<in> set (cumsum_from c ss)"
  then obtain i where "i < length (cumsum_from c ss)" "x = cumsum_from c ss ! i"
    by (auto simp: in_set_conv_nth)
  then have "i \<le> length ss" "x = c + sum_list (take i ss)"
    by (simp_all add: cumsum_from_nth)
  then show ?thesis by blast
qed


subsection \<open>DisjointUnion of immutable graphs\<close>

lemma union_indptr_run:
  assumes "length gi - 1 \<le> r"
  shows "union_indptr gi ce (pre @ replicate r 0, length pre) =
    Inr (pre @ map (\<lambda>x. x + word_of_nat ce) (tl gi) @ replicate (r - (length gi - 1)) 0,
         length pre + (length gi - 1))"
proof -
  have "length [1 ..< length gi] \<le> r" using assms by simp
  from fold_store_seq [OF this, of "\<lambda>i. gi ! i + word_of_nat ce" pre 0]
  show ?thesis
    unfolding union_indptr_def
    by (simp add: map_nth_from_1 [of "\<lambda>x. x + word_of_nat ce" gi])
qed


lemma union_step_run:
  assumes ip: "indptr (batched st) = pre @ replicate r 0"
    and idx: "indptr_idx st = length pre"
    and room: "NumVertices_immutable g \<le> r"
  shows "union_step g st = Inr
    \<lparr>batched = \<lparr>indptr = pre @ map (\<lambda>x. x + word_of_nat (cum_num_edges st)) (tl (indptr (GetInCSR g)))
                      @ replicate (r - NumVertices_immutable g) 0,
        indices = indices (batched st)
          @ map (\<lambda>x. x + word_of_nat (cum_num_nodes st)) (indices (GetInCSR g)),
        edge_ids = edge_ids (batched st)
          @ map (\<lambda>x. x + word_of_nat (cum_num_edges st)) (edge_ids (GetInCSR g))\<rparr>,
      cum_num_nodes = cum_num_nodes st + NumVertices_immutable g,
      cum_num_edges = cum_num_edges st + NumEdges_immutable g,
      indptr_idx = length pre + NumVertices_immutable g\<rparr>"
proof -
  have r: "length (indptr (GetInCSR g)) - 1 \<le> r"
    using room by (simp add: NumVertices_immutable_def CSR_NumVertices_def GetInCSR_def)
  show ?thesis
    unfolding union_step_def Let_def ip idx union_indptr_run [OF r]
    by (simp add: NumVertices_immutable_def NumEdges_immutable_def CSR_NumVertices_def GetInCSR_def)
qed

lemma length_shifted_concat:
  "length (shifted_concat f c gs) = sum_list (map (\<lambda>g. length (f g)) gs)"
proof (induction gs rule: rev_induct)
  case Nil
  then show ?case by (simp add: shifted_concat_Nil)
next
  case (snoc g gs)
  then show ?case by (simp add: shifted_concat_snoc)
qed

lemma union_loop:
  "sum_list (map NumVertices_immutable p) \<le> N \<Longrightarrow>
   fold_err union_step p
     \<lparr>batched = \<lparr>indptr = 0 # replicate N 0, indices = [], edge_ids = []\<rparr>,
      cum_num_nodes = 0, cum_num_edges = 0, indptr_idx = 1\<rparr>
   = Inr
     \<lparr>batched = \<lparr>indptr = (0 # shifted_concat (\<lambda>g. tl (indptr (GetInCSR g))) NumEdges_immutable p)
                       @ replicate (N - sum_list (map NumVertices_immutable p)) 0,
         indices = shifted_concat (\<lambda>g. indices (GetInCSR g)) NumVertices_immutable p,
         edge_ids = shifted_concat (\<lambda>g. edge_ids (GetInCSR g)) NumEdges_immutable p\<rparr>,
      cum_num_nodes = sum_list (map NumVertices_immutable p),
      cum_num_edges = sum_list (map NumEdges_immutable p),
      indptr_idx = 1 + sum_list (map NumVertices_immutable p)\<rparr>"
proof (induction p rule: rev_induct)
  case Nil
  then show ?case by (simp add: shifted_concat_Nil)
next
  case (snoc g p)
  let ?nv = "sum_list (map NumVertices_immutable p)"
  let ?pre = "0 # shifted_concat (\<lambda>g. tl (indptr (GetInCSR g))) NumEdges_immutable p"
  let ?st = "\<lparr>batched = \<lparr>indptr = ?pre @ replicate (N - ?nv) 0,
         indices = shifted_concat (\<lambda>g. indices (GetInCSR g)) NumVertices_immutable p,
         edge_ids = shifted_concat (\<lambda>g. edge_ids (GetInCSR g)) NumEdges_immutable p\<rparr>,
      cum_num_nodes = ?nv,
      cum_num_edges = sum_list (map NumEdges_immutable p),
      indptr_idx = 1 + ?nv\<rparr>"
  from snoc.prems have le: "?nv \<le> N" and room: "NumVertices_immutable g \<le> N - ?nv"
    by simp_all
  have len: "length ?pre = 1 + ?nv"
  proof -
    have "(\<lambda>g. length (tl (indptr (GetInCSR g)))) = NumVertices_immutable"
      by (rule ext) (simp add: NumVertices_immutable_def CSR_NumVertices_def GetInCSR_def)
    then show ?thesis by (simp add: length_shifted_concat)
  qed
  have ip: "indptr (batched ?st) = ?pre @ replicate (N - ?nv) 0" by simp
  have idx: "indptr_idx ?st = length ?pre" using len by simp
  show ?case
    using snoc.IH [OF le] union_step_run [OF ip idx room] len
    by (simp add: fold_err_append shifted_concat_snoc)
qed

text \<open>
  Claim C3. For every list of immutable graphs (each CSR holding at least \<^verbatim>\<open>indptr[0]\<close>),
  \<^verbatim>\<open>DisjointUnion\<close> over their incoming-edge CSR views returns a graph that holds only an
  incoming CSR, whose \<open>indptr\<close> is 0 followed by the concatenation of each input's
  \<^verbatim>\<open>indptr[1:]\<close> shifted by the edge count of the preceding inputs, whose \<open>indices\<close> is the
  concatenation of each input's neighbour ids shifted by the vertex count of the preceding
  inputs, and whose \<open>edge_ids\<close> is the concatenation of each input's edge ids shifted by the
  edge count of the preceding inputs.
\<close>

theorem DisjointUnion_immutable_spec:
  assumes "\<forall>g \<in> set graphs. indptr (GetInCSR g) \<noteq> []"
  shows "DisjointUnion_immutable graphs = Inr
    \<lparr>in_csr =
       \<lparr>indptr = 0 # shifted_concat (\<lambda>g. tl (indptr (GetInCSR g))) NumEdges_immutable graphs,
        indices = shifted_concat (\<lambda>g. indices (GetInCSR g)) NumVertices_immutable graphs,
        edge_ids = shifted_concat (\<lambda>g. edge_ids (GetInCSR g)) NumEdges_immutable graphs\<rparr>,
     out_csr = None\<rparr>"
proof -
  let ?N = "sum_list (map NumVertices_immutable graphs)"
  have new: "CSR_new (int ?N) (int (sum_list (map NumEdges_immutable graphs))) =
      Inr \<lparr>indptr = replicate (Suc ?N) 0, indices = [], edge_ids = []\<rparr>"
    by (simp add: CSR_new_def nat_add_distrib)
  show ?thesis
    unfolding DisjointUnion_immutable_def Let_def new
    using union_loop [OF order_refl, of graphs]
    by (simp add: store_def)
qed


theorem DisjointUnion_immutable_spec_witness:
  "DisjointUnion_immutable
     [\<lparr>in_csr = \<lparr>indptr = [0, 1, 2], indices = [1, 0], edge_ids = [0, 1]\<rparr>, out_csr = None\<rparr>,
      \<lparr>in_csr = \<lparr>indptr = [0, 2], indices = [0, 0], edge_ids = [0, 1]\<rparr>, out_csr = None\<rparr>]
   = Inr \<lparr>in_csr = \<lparr>indptr = [0, 1, 2, 4], indices = [1, 0, 2, 2], edge_ids = [0, 1, 2, 3]\<rparr>,
          out_csr = None\<rparr>"
proof -
  let ?gs = "[\<lparr>in_csr = \<lparr>indptr = [0, 1, 2], indices = [1, 0], edge_ids = [0, 1]\<rparr>, out_csr = None\<rparr>,
      \<lparr>in_csr = \<lparr>indptr = [0, 2], indices = [0, 0], edge_ids = [0, 1 :: dgl_id_t]\<rparr>, out_csr = None\<rparr>]"
  have h: "\<forall>g \<in> set ?gs. indptr (GetInCSR g) \<noteq> []"
    by (simp add: GetInCSR_def)
  have e: "\<lparr>in_csr =
       \<lparr>indptr = 0 # shifted_concat (\<lambda>g. tl (indptr (GetInCSR g))) NumEdges_immutable ?gs,
        indices = shifted_concat (\<lambda>g. indices (GetInCSR g)) NumVertices_immutable ?gs,
        edge_ids = shifted_concat (\<lambda>g. edge_ids (GetInCSR g)) NumEdges_immutable ?gs\<rparr>,
     out_csr = None\<rparr>
    = \<lparr>in_csr = \<lparr>indptr = [0, 1, 2, 4], indices = [1, 0, 2, 2], edge_ids = [0, 1, 2, 3]\<rparr>,
          out_csr = None\<rparr>"
    by code_simp
  show ?thesis
    unfolding DisjointUnion_immutable_spec [OF h] e ..
qed

subsection \<open>DisjointPartitionBySizes of an immutable graph\<close>

lemma partition_step_run:
  assumes cS: "cumsum ! i = int S" and cE: "cumsum ! (i + 1) = int E" and SE: "S \<le> E"
    and EN: "E < length (indptr bg)" and sz: "szs ! i = int (E - S)"
    and srt: "sorted (map sint (indptr bg))" and z: "indptr bg ! 0 = 0"
    and lix: "unat (indptr bg ! E) \<le> length (indices bg)"
    and les: "unat (indptr bg ! E) \<le> length (edge_ids bg)"
    and E32: "E < 2 ^ 31 - 1" and b32: "unat (indptr bg ! E) < 2 ^ 31"
  shows "partition_step bg szs cumsum i (rst, cse) = Inr
    (rst @ [\<lparr>in_csr =
       \<lparr>indptr = 0 # map (\<lambda>k. indptr bg ! (S + 1 + k) - indptr bg ! S) [0 ..< E - S],
        indices = map (\<lambda>x. x - word_of_nat S)
          (take (unat (indptr bg ! E) - unat (indptr bg ! S)) (drop (unat (indptr bg ! S)) (indices bg))),
        edge_ids = map (\<lambda>x. x - cse)
          (take (unat (indptr bg ! E) - unat (indptr bg ! S)) (drop (unat (indptr bg ! S)) (edge_ids bg)))\<rparr>,
       out_csr = None\<rparr>],
     cse + (indptr bg ! E - indptr bg ! S))"
proof -
  let ?ip = "indptr bg"
  define a where "a = unat (?ip ! S)"
  define b where "b = unat (?ip ! E)"
  have SN: "S < length ?ip" using SE EN by simp
  have ab: "a \<le> b" and bsmall: "b < 2 ^ 63" and sb: "sint (?ip ! E) = int b"
    using sorted_sint_facts [OF srt z SE EN] unfolding a_def b_def by simp_all
  have sa: "sint (?ip ! S) = int a"
    using sorted_sint_facts(3) [OF srt z order_refl SN] unfolding a_def by simp
  note lix = lix [folded b_def] and les = les [folded b_def]
  have d: "unat (?ip ! E - ?ip ! S) = b - a" unfolding a_def b_def by (rule unat_sub_le [OF ab [unfolded a_def b_def]])
  then have "unat (?ip ! E - ?ip ! S) < 2 ^ 63" using bsmall by simp
  then have sd: "sint (?ip ! E - ?ip ! S) = int (b - a)"
    using d unat_small_sint by metis
  have pe: "nth_int ?ip (int E) = Inr (?ip ! E)" using EN by (simp add: nth_int_def)
  have ps: "nth_int ?ip (int S) = Inr (?ip ! S)" using SN by (simp add: nth_int_def)
  have new: "CSR_new (int (E - S)) (int (b - a)) =
      Inr \<lparr>indptr = [0] @ replicate (E - S) 0, indices = [], edge_ids = []\<rparr>"
    by (simp add: CSR_new_def nat_add_distrib)
  have r1: "[int S + 1 .. int E] = map (\<lambda>k. int S + 1 + int k) [0 ..< E - S]"
    using upto_as_nat [of "int S + 1" "int E + 1"] SE by (simp add: nat_diff_distrib')
  have loop1: "fold_err (\<lambda>l ip. bind_err (nth_int ?ip l) (\<lambda>x.
                 if l - int S < 0 then Inl OutOfRange else store ip (nat (l - int S)) (x - ?ip ! S)))
        [int S + 1 .. int E] ([0] @ replicate (E - S) 0)
      = Inr ([0] @ map (\<lambda>k. ?ip ! (S + 1 + k) - ?ip ! S) [0 ..< E - S] @ replicate (E - S - (E - S)) 0)"
    unfolding r1 fold_err_map
  proof (rule fold_store_idx)
    fix k buf assume k: "k < E - S"
    then have "S + 1 + k < length ?ip" using EN by simp
    then have "nth_int ?ip (int S + 1 + int k) = Inr (?ip ! (S + 1 + k))"
      by (simp add: nth_int_def nat_add_distrib)
    then show "bind_err (nth_int ?ip (int S + 1 + int k)) (\<lambda>x.
          if int S + 1 + int k - int S < 0 then Inl OutOfRange
          else store buf (nat (int S + 1 + int k - int S)) (x - ?ip ! S))
        = store buf (length [0::dgl_id_t] + k) (?ip ! (S + 1 + k) - ?ip ! S)"
      by (simp add: nat_add_distrib)
  qed simp_all
  have r2: "[sint (?ip ! S) .. sint (?ip ! E) - 1] = map (\<lambda>k. int a + int k) [0 ..< b - a]"
    using upto_as_nat [of "int a" "int b"] ab by (simp add: sa sb nat_diff_distrib')
  have f1: "for_int (int32 (int S + 1)) (int E + 1) body s = fold_err body [int S + 1 .. int E] s"
    for body :: "int \<Rightarrow> 's \<Rightarrow> error + 's" and s
  proof -
    have "int E + 1 \<le> 2 ^ 31 - 1" using E32 by simp
    moreover have "int32 (int S + 1) = int S + 1"
      using SE E32 by (intro int32_small) simp_all
    ultimately show ?thesis using for_int_fold [of "int E + 1" "int S + 1" body s] by simp
  qed
  have f2: "for_int (int32 (sint (?ip ! S))) (sint (?ip ! E)) body s =
      fold_err body [sint (?ip ! S) .. sint (?ip ! E) - 1] s"
    for body :: "int \<Rightarrow> 's \<Rightarrow> error + 's" and s
  proof -
    have "b < 2 ^ 31" using b32 unfolding b_def .
    then have "int b \<le> 2 ^ 31 - 1" "int a < 2 ^ 31" using ab by simp_all
    moreover from this have "int32 (int a) = int a" by (intro int32_small) simp_all
    ultimately show ?thesis unfolding sa sb using for_int_fold [of "int b" "int a" body s] by simp
  qed
  have loop2: "fold_err (\<lambda>j acc. bind_err (nth_int xs j) (\<lambda>x. Inr (acc @ [h x])))
        [sint (?ip ! S) .. sint (?ip ! E) - 1] []
      = Inr (map h (take (b - a) (drop a xs)))"
    if len: "b \<le> length xs" for xs :: "dgl_id_t list" and h :: "dgl_id_t \<Rightarrow> dgl_id_t"
  proof -
    have "fold_err (\<lambda>k acc. bind_err (nth_int xs (int a + int k)) (\<lambda>x. Inr (acc @ [h x])))
        [0 ..< b - a] [] = Inr ([] @ map (\<lambda>k. h (xs ! (a + k))) [0 ..< b - a])"
    proof (rule fold_push_idx)
      fix k acc assume "k < b - a"
      then have "a + k < length xs" using len by simp
      then show "bind_err (nth_int xs (int a + int k)) (\<lambda>x. Inr (acc @ [h x])) = Inr (acc @ [h (xs ! (a + k))])"
        by (simp add: nth_int_def nat_add_distrib)
    qed
    moreover have "a + (b - a) \<le> length xs" using len ab by simp
    ultimately show ?thesis
      unfolding r2 fold_err_map by (simp add: map_nth_slice)
  qed
  show ?thesis
    unfolding partition_step_def Let_def fst_conv snd_conv cS cE sz pe ps bind_err_Inr sd new CSR.simps
      f1 f2 loop1 loop2 [OF lix] loop2 [OF les]
    by (simp add: a_def b_def)
qed


lemma nonneg_sizes:
  assumes "\<forall>s \<in> set szs. (0::int) \<le> s"
  shows "szs = map int (map nat szs)"
  using assms by (induction szs) simp_all

lemma cumsum_nat:
  "i \<le> length ns \<Longrightarrow> cumsum_from 0 (map int ns) ! i = int (sum_list (take i ns))"
proof -
  assume "i \<le> length ns"
  then have "cumsum_from 0 (map int ns) ! i = sum_list (take i (map int ns))"
    by (simp add: cumsum_from_nth)
  also have "\<dots> = int (sum_list (take i ns))"
    by (simp add: take_map sum_list_of_nat)
  finally show ?thesis .
qed


lemma sum_take_mono: "i \<le> j \<Longrightarrow> sum_list (take i ns) \<le> sum_list (take j (ns :: nat list))"
proof (induction ns arbitrary: i j)
  case Nil
  then show ?case by simp
next
  case (Cons n ns)
  then show ?case by (cases i; cases j) simp_all
qed

lemma sum_take_Suc:
  "i < length ns \<Longrightarrow> sum_list (take (Suc i) ns) = sum_list (take i ns) + (ns ! i :: nat)"
  by (simp add: take_Suc_conv_app_nth)


lemma cumsum_range_nat:
  assumes "sum_list ns < 2 ^ 63"
  shows "\<forall>x \<in> set (tl (cumsum_from 0 (map int ns))). - (2 ^ 63) \<le> x \<and> x < 2 ^ 63"
proof
  fix x assume "x \<in> set (tl (cumsum_from 0 (map int ns)))"
  then have "x \<in> set (cumsum_from 0 (map int ns))"
    by (cases "cumsum_from 0 (map int ns)") simp_all
  then obtain i where i: "i \<le> length (map int ns)" "x = 0 + sum_list (take i (map int ns))"
    using cumsum_from_set by blast
  have e: "sum_list (take i (map int ns)) = int (sum_list (take i ns))"
    by (simp add: take_map sum_list_of_nat)
  have "sum_list (take i ns) \<le> sum_list (take (length ns) ns)"
    using i(1) by (intro sum_take_mono) simp
  then have "sum_list (take i ns) < 2 ^ 63" using assms by simp
  then have "int (sum_list (take i ns)) < 2 ^ 63"
    by (simp only: of_nat_less_numeral_power_cancel_iff)
  then show "- (2 ^ 63) \<le> x \<and> x < 2 ^ 63" unfolding i(2) e by simp
qed


lemma cumsum_range_nonneg:
  assumes nonneg: "\<forall>s \<in> set szs. (0::int) \<le> s" and bound: "sum_list szs < 2 ^ 63"
  shows "\<forall>x \<in> set (tl (cumsum_from 0 szs)). - (2 ^ 63) \<le> x \<and> x < 2 ^ 63"
proof -
  have e: "szs = map int (map nat szs)" by (rule nonneg_sizes [OF nonneg])
  have "int (sum_list ns) = sum_list (map int ns)" for ns :: "nat list"
    by (induction ns) simp_all
  then have "int (sum_list (map nat szs)) = sum_list szs" using e by simp
  then have "int (sum_list (map nat szs)) < 2 ^ 63"
    using bound by simp
  then have "sum_list (map nat szs) < 2 ^ 63"
    by (simp only: of_nat_less_numeral_power_cancel_iff)
  from cumsum_range_nat [OF this] show ?thesis by (subst e)
qed

lemma DisjointPartitionBySizes_in_range:
  assumes "\<forall>x \<in> set (tl (cumsum_from 0 (sizes_data sizes))). - (2 ^ 63) \<le> x \<and> x < 2 ^ 63"
  shows "DisjointPartitionBySizes graph sizes =
    (if cumsum_from 0 (sizes_data sizes) ! shape0 sizes \<noteq> int (NumVertices graph)
     then Inl InvalidArgument
     else bind_err (fold_err (partition_graph graph (sizes_data sizes)) [0 ..< shape0 sizes] ([], 0, 0))
            (\<lambda>st. Inr (fst st)))"
  unfolding DisjointPartitionBySizes_def Let_def cumsum_int64_eq
  by (simp only: if_P [OF assms] bind_err_Inr)

lemma DisjointPartitionBySizes_immutable_in_range:
  assumes "\<forall>x \<in> set (tl (cumsum_from 0 (sizes_data sizes))). - (2 ^ 63) \<le> x \<and> x < 2 ^ 63"
  shows "DisjointPartitionBySizes_immutable graph sizes =
    (if cumsum_from 0 (sizes_data sizes) ! shape0 sizes \<noteq> int (NumVertices_immutable graph)
     then Inl InvalidArgument
     else bind_err (fold_err (partition_step (GetInCSR graph) (sizes_data sizes)
                      (cumsum_from 0 (sizes_data sizes))) [0 ..< shape0 sizes] ([], 0))
            (\<lambda>st. Inr (fst st)))"
  unfolding DisjointPartitionBySizes_immutable_def Let_def cumsum_int64_eq
  by (simp only: if_P [OF assms] bind_err_Inr)

lemma DisjointPartitionBySizes_overflow:
  assumes "\<not> (\<forall>x \<in> set (tl (cumsum_from 0 (sizes_data sizes))). - (2 ^ 63) \<le> x \<and> x < 2 ^ 63)"
  shows "DisjointPartitionBySizes graph sizes = Inl OutOfRange"
    and "DisjointPartitionBySizes_immutable ig sizes = Inl OutOfRange"
  unfolding DisjointPartitionBySizes_def DisjointPartitionBySizes_immutable_def Let_def cumsum_int64_eq
  by (simp_all only: if_not_P [OF assms] bind_err_Inl)

lemma wf_csr_length_indices:
  assumes "wf_csr c"
  shows "length (indices c) = unat (indptr c ! (length (indptr c) - 1))"
proof -
  let ?ip = "indptr c"
  from assms have ne: "?ip \<noteq> []" and srt: "sorted (map sint ?ip)" and z: "?ip ! 0 = 0"
    and lix: "int (length (indices c)) = sint (last ?ip)"
    by (simp_all add: wf_csr_def)
  have N: "length ?ip - 1 < length ?ip" using ne by simp
  have last: "last ?ip = ?ip ! (length ?ip - 1)" using ne by (rule last_conv_nth)
  have "int (unat (?ip ! (length ?ip - 1))) = sint (?ip ! (length ?ip - 1))"
    by (rule sorted_sint_facts(3) [OF srt z order_refl N])
  with lix last have "int (length (indices c)) = int (unat (?ip ! (length ?ip - 1)))"
    by (simp only:)
  then show ?thesis by (simp only: of_nat_eq_iff)
qed

lemma partition_loop:
  assumes wf: "wf_csr bg" and total: "sum_list ns = CSR_NumVertices bg"
    and N32: "CSR_NumVertices bg < 2 ^ 31 - 1" and M32: "CSR_NumEdges bg < 2 ^ 31"
  shows "k \<le> length ns \<Longrightarrow>
    fold_err (partition_step bg (map int ns) (cumsum_from 0 (map int ns))) [0 ..< k] ([], 0)
      = Inr (map (expected_part bg ns) [0 ..< k], indptr bg ! sum_list (take k ns))"
proof (induction k)
  case 0
  then show ?case using wf by (simp add: wf_csr_def)
next
  case (Suc k)
  let ?ip = "indptr bg" and ?cum = "cumsum_from 0 (map int ns)"
  let ?S = "sum_list (take k ns)" and ?E = "sum_list (take (Suc k) ns)"
  from Suc.prems have k: "k < length ns" "k \<le> length ns" "Suc k \<le> length ns" by simp_all
  from wf have ne: "?ip \<noteq> []" and srt: "sorted (map sint ?ip)" and z: "?ip ! 0 = 0"
    and lix: "int (length (indices bg)) = sint (last ?ip)"
    and les: "length (edge_ids bg) = length (indices bg)"
    by (simp_all add: wf_csr_def)
  let ?N = "length ?ip - 1"
  have N: "?N < length ?ip" using ne by simp
  have last: "last ?ip = ?ip ! ?N" using ne by (simp add: last_conv_nth)
  have "sum_list (take (Suc k) ns) \<le> sum_list (take (length ns) ns)"
    by (rule sum_take_mono [OF k(3)])
  then have EN': "?E \<le> ?N" using total by (simp add: CSR_NumVertices_def)
  then have EN: "?E < length ?ip" using N by simp
  have SE: "?S \<le> ?E" by (rule sum_take_mono) simp
  have cS: "?cum ! k = int ?S" by (rule cumsum_nat [OF k(2)])
  have cE: "?cum ! (k + 1) = int ?E" using cumsum_nat [OF k(3)] by simp
  have sz: "map int ns ! k = int (?E - ?S)"
    using k(1) by (simp add: sum_take_Suc)
  have "int (unat (?ip ! ?N)) = sint (?ip ! ?N)"
    by (rule sorted_sint_facts(3) [OF srt z order_refl N])
  with lix last have "int (length (indices bg)) = int (unat (?ip ! ?N))" by (simp only:)
  then have len: "length (indices bg) = unat (?ip ! ?N)" by (simp only: of_nat_eq_iff)
  have "unat (?ip ! ?E) \<le> unat (?ip ! ?N)"
    by (rule sorted_sint_facts(1) [OF srt z EN' N])
  then have l1: "unat (?ip ! ?E) \<le> length (indices bg)"
    and l2: "unat (?ip ! ?E) \<le> length (edge_ids bg)"
    using len les by simp_all
  have E32: "?E < 2 ^ 31 - 1" using EN' N32 by (simp add: CSR_NumVertices_def)
  have b32: "unat (?ip ! ?E) < 2 ^ 31" using l1 M32 by (simp add: CSR_NumEdges_def)
  have step: "partition_step bg (map int ns) ?cum k
        (map (expected_part bg ns) [0 ..< k], ?ip ! ?S)
      = Inr (map (expected_part bg ns) [0 ..< k] @ [expected_part bg ns k],
             ?ip ! ?S + (?ip ! ?E - ?ip ! ?S))"
    unfolding partition_step_run [OF cS cE SE EN sz srt z l1 l2 E32 b32]
    by (simp add: expected_part_def Let_def)
  show ?case
    using Suc.IH [OF k(2)]
    by (simp only: upt_Suc_append [OF le0] fold_err_snoc bind_err_Inr step map_append list.map)
       simp
qed


lemma edges_before_telescope:
  assumes z: "ip ! 0 = 0"
  shows "i \<le> length ns \<Longrightarrow>
    edges_before ip (cumsum_from 0 (map int ns)) i = ip ! sum_list (take i ns)"
proof (induction i)
  case 0
  then show ?case using z by (simp add: edges_before_def)
next
  case (Suc i)
  then have i: "i \<le> length ns" "Suc i \<le> length ns" by simp_all
  have "edges_before ip (cumsum_from 0 (map int ns)) (Suc i) =
      edges_before ip (cumsum_from 0 (map int ns)) i +
        (ip ! nat (cumsum_from 0 (map int ns) ! (i + 1)) - ip ! nat (cumsum_from 0 (map int ns) ! i))"
    by (simp add: edges_before_def)
  also have "\<dots> = ip ! sum_list (take (Suc i) ns)"
    using Suc.IH [OF i(1)] cumsum_nat [OF i(1)] cumsum_nat [OF i(2)] by simp
  finally show ?case .
qed

lemma unat_sub_of_nat:
  fixes x :: dgl_id_t
  assumes "S \<le> unat x"
  shows "unat (x - word_of_nat S) = unat x - S"
proof -
  have "unat x < 2 ^ 64" using unsigned_less [of x] by simp
  with assms have "S < 2 ^ 64" by simp
  then have S: "unat (word_of_nat S :: dgl_id_t) = S" by (rule unat_of_nat64)
  then have "unat (word_of_nat S :: dgl_id_t) \<le> unat x" using assms by simp
  then have "unat (x - word_of_nat S) = unat x - unat (word_of_nat S :: dgl_id_t)"
    by (rule unat_sub_le)
  then show ?thesis by (simp only: S)
qed

text \<open>
  Within the range of the \<^verbatim>\<open>int\<close> counters the partition is what the spec describes. For an
  immutable graph with a well-formed CSR, fewer than \<open>2 ^ 31 - 1\<close> vertices and fewer than
  \<open>2 ^ 31\<close> edges, and non-negative sizes that sum to its vertex count, and under the contract
  that every neighbour id stored in a row of a partition's vertex range lies in that range,
  \<^verbatim>\<open>DisjointPartitionBySizes\<close> returns one graph per size; partition \<open>i\<close>, with vertex range
  from \<open>start i\<close> up to \<open>start (i + 1)\<close>, has
  \<^verbatim>\<open>indptr[l - start] = indptr_parent[l] - indptr_parent[start]\<close> for every \<open>l\<close> in the range
  \<open>(start, end]\<close>; its \<open>indices\<close> are the parent's entries of the rows of the range, each less
  \<open>start\<close>, which under the contract is a local id below the partition's size with no
  wrap-around; and its \<open>edge_ids\<close> are the parent's corresponding entries, each less the number
  of edges consumed by the partitions before it.
\<close>

theorem DisjointPartitionBySizes_immutable_spec:
  fixes g :: ImmutableGraph and sizes :: IdArray
  defines "bg \<equiv> GetInCSR g"
  defines "start \<equiv> vertex_offset sizes"
  defines "lo \<equiv> \<lambda>i. unat (indptr bg ! start i)"
  defines "hi \<equiv> \<lambda>i. unat (indptr bg ! start (i + 1))"
  assumes wf: "wf_csr bg"
    and nonneg: "\<forall>s \<in> set (sizes_data sizes). 0 \<le> s"
    and total: "sum_list (sizes_data sizes) = int (NumVertices_immutable g)"
    and closed: "closed_under_edges bg (cumsum_from 0 (sizes_data sizes))"
    and N32: "NumVertices_immutable g < 2 ^ 31 - 1"
    and M32: "NumEdges_immutable g < 2 ^ 31"
  shows "\<exists>parts. DisjointPartitionBySizes_immutable g sizes = Inr parts \<and>
    length parts = shape0 sizes \<and>
    (\<forall>i < shape0 sizes.
       length (indptr (GetInCSR (parts ! i))) = start (i + 1) - start i + 1 \<and>
       (\<forall>l. start i < l \<and> l \<le> start (i + 1) \<longrightarrow>
          indptr (GetInCSR (parts ! i)) ! (l - start i) = indptr bg ! l - indptr bg ! start i) \<and>
       indices (GetInCSR (parts ! i)) =
         map (\<lambda>x. x - word_of_nat (start i)) (take (hi i - lo i) (drop (lo i) (indices bg))) \<and>
       edge_ids (GetInCSR (parts ! i)) =
         map (\<lambda>x. x - edges_before (indptr bg) (cumsum_from 0 (sizes_data sizes)) i)
           (take (hi i - lo i) (drop (lo i) (edge_ids bg))) \<and>
       (\<forall>t < hi i - lo i.
          unat (indices (GetInCSR (parts ! i)) ! t) = unat (indices bg ! (lo i + t)) - start i \<and>
          unat (indices (GetInCSR (parts ! i)) ! t) < start (i + 1) - start i))"
proof -
  define ns where "ns = map nat (sizes_data sizes)"
  let ?ip = "indptr bg" and ?cum = "cumsum_from 0 (map int ns)"
  have szs: "sizes_data sizes = map int ns"
    unfolding ns_def by (rule nonneg_sizes [OF nonneg])
  have len: "shape0 sizes = length ns"
    by (simp add: ns_def shape0_def sizes_data_def)
  have "int (sum_list ns) = int (NumVertices_immutable g)"
    using total by (simp add: szs sum_list_of_nat)
  then have tot: "sum_list ns = CSR_NumVertices bg"
    by (simp add: NumVertices_immutable_def bg_def GetInCSR_def)
  have st: "\<And>i. i \<le> length ns \<Longrightarrow> start i = sum_list (take i ns)"
    by (simp add: start_def vertex_offset_def szs cumsum_nat)
  from wf have ne: "?ip \<noteq> []" and srt: "sorted (map sint ?ip)" and z: "?ip ! 0 = 0"
    and lix: "int (length (indices bg)) = sint (last ?ip)"
    by (simp_all add: wf_csr_def)
  have chk: "?cum ! length ns = int (NumVertices_immutable g)"
    using cumsum_nat [OF order_refl, of ns] tot
    by (simp add: NumVertices_immutable_def bg_def GetInCSR_def)
  have n32: "CSR_NumVertices bg < 2 ^ 31 - 1" and m32: "CSR_NumEdges bg < 2 ^ 31"
    using N32 M32
    by (simp_all add: NumVertices_immutable_def NumEdges_immutable_def bg_def GetInCSR_def)
  have "sum_list (sizes_data sizes) < 2 ^ 63" unfolding total using N32 by simp
  then have rng: "\<forall>x \<in> set (tl (cumsum_from 0 (sizes_data sizes))). - (2 ^ 63) \<le> x \<and> x < 2 ^ 63"
    by (rule cumsum_range_nonneg [OF nonneg])
  have run: "DisjointPartitionBySizes_immutable g sizes = Inr (map (expected_part bg ns) [0 ..< length ns])"
    unfolding DisjointPartitionBySizes_immutable_in_range [OF rng] len szs
    using chk partition_loop [OF wf tot n32 m32 order_refl]
    by (simp add: bg_def)
  have part: "length (indptr (GetInCSR (expected_part bg ns i))) = start (i + 1) - start i + 1 \<and>
       (\<forall>l. start i < l \<and> l \<le> start (i + 1) \<longrightarrow>
          indptr (GetInCSR (expected_part bg ns i)) ! (l - start i) = ?ip ! l - ?ip ! start i) \<and>
       indices (GetInCSR (expected_part bg ns i)) =
         map (\<lambda>x. x - word_of_nat (start i)) (take (hi i - lo i) (drop (lo i) (indices bg))) \<and>
       edge_ids (GetInCSR (expected_part bg ns i)) =
         map (\<lambda>x. x - edges_before ?ip (cumsum_from 0 (sizes_data sizes)) i)
           (take (hi i - lo i) (drop (lo i) (edge_ids bg))) \<and>
       (\<forall>t < hi i - lo i.
          unat (indices (GetInCSR (expected_part bg ns i)) ! t) = unat (indices bg ! (lo i + t)) - start i \<and>
          unat (indices (GetInCSR (expected_part bg ns i)) ! t) < start (i + 1) - start i)"
    if i: "i < length ns" for i
  proof -
    let ?S = "sum_list (take i ns)" and ?E = "sum_list (take (Suc i) ns)"
    let ?c = "GetInCSR (expected_part bg ns i)"
    from i have il: "i \<le> length ns" "Suc i \<le> length ns" by simp_all
    have sS: "start i = ?S" and sE: "start (i + 1) = ?E" and sE': "start (Suc i) = ?E"
      using st [OF il(1)] st [OF il(2)] by simp_all
    have SE: "?S \<le> ?E" by (rule sum_take_mono) simp
    have "sum_list (take (Suc i) ns) \<le> sum_list (take (length ns) ns)"
      by (rule sum_take_mono [OF il(2)])
    then have "?E \<le> length ?ip - 1" using tot by (simp add: CSR_NumVertices_def)
    moreover have "0 < length ?ip" using ne by simp
    ultimately have EN: "?E < length ?ip" by linarith
    have ab: "lo i \<le> hi i"
      unfolding lo_def hi_def sS sE by (rule sorted_sint_facts(1) [OF srt z SE EN])
    have c1: "length (indptr ?c) = start (i + 1) - start i + 1"
      by (simp add: expected_part_def Let_def GetInCSR_def sS sE sE')
    have c2: "\<forall>l. start i < l \<and> l \<le> start (i + 1) \<longrightarrow>
          indptr ?c ! (l - start i) = ?ip ! l - ?ip ! start i"
    proof (intro allI impI)
      fix l assume l: "start i < l \<and> l \<le> start (i + 1)"
      define k where "k = l - ?S - 1"
      from l have k: "l = ?S + 1 + k" "k < ?E - ?S"
        unfolding sS sE k_def by linarith+
      then show "indptr ?c ! (l - start i) = ?ip ! l - ?ip ! start i"
        by (simp add: expected_part_def Let_def GetInCSR_def sS)
    qed
    have c3: "indices ?c =
         map (\<lambda>x. x - word_of_nat (start i)) (take (hi i - lo i) (drop (lo i) (indices bg)))"
      by (simp add: expected_part_def Let_def GetInCSR_def sS sE sE' lo_def hi_def)
    have eb: "edges_before ?ip (cumsum_from 0 (sizes_data sizes)) i = ?ip ! ?S"
      unfolding szs by (rule edges_before_telescope [OF z il(1)])
    have c4: "edge_ids ?c =
         map (\<lambda>x. x - edges_before ?ip (cumsum_from 0 (sizes_data sizes)) i)
           (take (hi i - lo i) (drop (lo i) (edge_ids bg)))"
      by (simp add: eb) (simp add: expected_part_def Let_def GetInCSR_def sS sE sE' lo_def hi_def)
    have c5: "\<forall>t < hi i - lo i.
          unat (indices ?c ! t) = unat (indices bg ! (lo i + t)) - start i \<and>
          unat (indices ?c ! t) < start (i + 1) - start i"
    proof (intro allI impI)
      fix t assume t: "t < hi i - lo i"
      let ?x = "indices bg ! (lo i + t)"
      have lenix: "length (indices bg) = unat (?ip ! (length ?ip - 1))"
        by (rule wf_csr_length_indices [OF wf])
      have "?E \<le> length ?ip - 1" using EN by simp
      moreover have "length ?ip - 1 < length ?ip" using ne by simp
      ultimately have "unat (?ip ! ?E) \<le> unat (?ip ! (length ?ip - 1))"
        by (rule sorted_sint_facts(1) [OF srt z])
      then have hilen: "hi i \<le> length (indices bg)"
        unfolding hi_def sE lenix .
      then have tl: "lo i + t < length (indices bg)" using t by simp
      have ix: "indices ?c ! t = ?x - word_of_nat (start i)"
        unfolding c3 using t tl by simp
      have "i \<in> set [0 ..< length (cumsum_from 0 (sizes_data sizes)) - 1]"
        using i by (simp add: szs)
      moreover have "lo i + t \<in> set [unat (?ip ! nat (cumsum_from 0 (sizes_data sizes) ! i)) ..<
          unat (?ip ! nat (cumsum_from 0 (sizes_data sizes) ! (i + 1)))]"
        using t by (simp add: lo_def hi_def start_def vertex_offset_def)
      ultimately have "cumsum_from 0 (sizes_data sizes) ! i \<le> uint ?x \<and>
          uint ?x < cumsum_from 0 (sizes_data sizes) ! (i + 1)"
        using closed unfolding closed_under_edges_def by blast
      moreover have "cumsum_from 0 (map int ns) ! (i + 1) = int ?E"
        using cumsum_nat [OF il(2)] by simp
      ultimately have "int ?S \<le> int (unat ?x) \<and> int (unat ?x) < int ?E"
        unfolding szs cumsum_nat [OF il(1)] by (simp only: uint_nat)
      then have b: "?S \<le> unat ?x" "unat ?x < ?E" by (simp_all only: of_nat_le_iff of_nat_less_iff)
      have "unat (?x - word_of_nat ?S) = unat ?x - ?S" by (rule unat_sub_of_nat [OF b(1)])
      with b show "unat (indices ?c ! t) = unat ?x - start i \<and>
          unat (indices ?c ! t) < start (i + 1) - start i"
        unfolding ix sS sE by (simp add: sS sE')
    qed
    from c1 c2 c3 c4 c5 show ?thesis by (intro conjI)
  qed
  show ?thesis
  proof (intro exI conjI)
    show "DisjointPartitionBySizes_immutable g sizes = Inr (map (expected_part bg ns) [0 ..< length ns])"
      by (rule run)
    show "length (map (expected_part bg ns) [0 ..< length ns]) = shape0 sizes"
      by (simp add: len)
    show "\<forall>i < shape0 sizes.
       length (indptr (GetInCSR (map (expected_part bg ns) [0 ..< length ns] ! i))) = start (i + 1) - start i + 1 \<and>
       (\<forall>l. start i < l \<and> l \<le> start (i + 1) \<longrightarrow>
          indptr (GetInCSR (map (expected_part bg ns) [0 ..< length ns] ! i)) ! (l - start i) = ?ip ! l - ?ip ! start i) \<and>
       indices (GetInCSR (map (expected_part bg ns) [0 ..< length ns] ! i)) =
         map (\<lambda>x. x - word_of_nat (start i)) (take (hi i - lo i) (drop (lo i) (indices bg))) \<and>
       edge_ids (GetInCSR (map (expected_part bg ns) [0 ..< length ns] ! i)) =
         map (\<lambda>x. x - edges_before ?ip (cumsum_from 0 (sizes_data sizes)) i)
           (take (hi i - lo i) (drop (lo i) (edge_ids bg))) \<and>
       (\<forall>t < hi i - lo i.
          unat (indices (GetInCSR (map (expected_part bg ns) [0 ..< length ns] ! i)) ! t) = unat (indices bg ! (lo i + t)) - start i \<and>
          unat (indices (GetInCSR (map (expected_part bg ns) [0 ..< length ns] ! i)) ! t) < start (i + 1) - start i)"
    proof (intro allI impI)
      fix i assume "i < shape0 sizes"
      then have i: "i < length ns" by (simp add: len)
      then have e: "map (expected_part bg ns) [0 ..< length ns] ! i = expected_part bg ns i"
        by simp
      show "length (indptr (GetInCSR (map (expected_part bg ns) [0 ..< length ns] ! i))) = start (i + 1) - start i + 1 \<and>
       (\<forall>l. start i < l \<and> l \<le> start (i + 1) \<longrightarrow>
          indptr (GetInCSR (map (expected_part bg ns) [0 ..< length ns] ! i)) ! (l - start i) = ?ip ! l - ?ip ! start i) \<and>
       indices (GetInCSR (map (expected_part bg ns) [0 ..< length ns] ! i)) =
         map (\<lambda>x. x - word_of_nat (start i)) (take (hi i - lo i) (drop (lo i) (indices bg))) \<and>
       edge_ids (GetInCSR (map (expected_part bg ns) [0 ..< length ns] ! i)) =
         map (\<lambda>x. x - edges_before ?ip (cumsum_from 0 (sizes_data sizes)) i)
           (take (hi i - lo i) (drop (lo i) (edge_ids bg))) \<and>
       (\<forall>t < hi i - lo i.
          unat (indices (GetInCSR (map (expected_part bg ns) [0 ..< length ns] ! i)) ! t) = unat (indices bg ! (lo i + t)) - start i \<and>
          unat (indices (GetInCSR (map (expected_part bg ns) [0 ..< length ns] ! i)) ! t) < start (i + 1) - start i)"
        unfolding e by (rule part [OF i])
    qed
  qed
qed



theorem DisjointPartitionBySizes_immutable_spec_witness:
  "\<exists>parts.
     DisjointPartitionBySizes_immutable
       \<lparr>in_csr = \<lparr>indptr = [0, 1, 2, 4], indices = [1, 0, 2, 2], edge_ids = [0, 1, 2, 3]\<rparr>,
        out_csr = None\<rparr> (id_array [2, 1]) = Inr parts \<and>
     length parts = 2 \<and>
     indptr (GetInCSR (parts ! 1)) ! 1 = 2 \<and>
     indices (GetInCSR (parts ! 1)) = [0, 0] \<and>
     edge_ids (GetInCSR (parts ! 1)) = [0, 1]"
proof -
  let ?G = "\<lparr>in_csr = \<lparr>indptr = [0, 1, 2, 4], indices = [1, 0, 2, 2], edge_ids = [0, 1, 2, 3]\<rparr>,
        out_csr = None\<rparr>"
  let ?sizes = "id_array [2, 1]"
  have h1: "wf_csr (GetInCSR ?G)" by code_simp
  have h2: "\<forall>s \<in> set (sizes_data ?sizes). 0 \<le> s" by code_simp
  have h3: "sum_list (sizes_data ?sizes) = int (NumVertices_immutable ?G)" by code_simp
  have h4: "closed_under_edges (GetInCSR ?G) (cumsum_from 0 (sizes_data ?sizes))" by code_simp
  have n: "NumVertices_immutable ?G = 3" and m: "NumEdges_immutable ?G = 4" by code_simp+
  have h5: "NumVertices_immutable ?G < 2 ^ 31 - 1" unfolding n by simp
  have h6: "NumEdges_immutable ?G < 2 ^ 31" unfolding m by simp
  from DisjointPartitionBySizes_immutable_spec [OF h1 h2 h3 h4 h5 h6]
  obtain parts where run: "DisjointPartitionBySizes_immutable ?G ?sizes = Inr parts"
    and len: "length parts = shape0 ?sizes"
    and all: "\<forall>i < shape0 ?sizes.
       length (indptr (GetInCSR (parts ! i))) = vertex_offset ?sizes (i + 1) - vertex_offset ?sizes i + 1 \<and>
       (\<forall>l. vertex_offset ?sizes i < l \<and> l \<le> vertex_offset ?sizes (i + 1) \<longrightarrow>
          indptr (GetInCSR (parts ! i)) ! (l - vertex_offset ?sizes i) =
            indptr (GetInCSR ?G) ! l - indptr (GetInCSR ?G) ! vertex_offset ?sizes i) \<and>
       indices (GetInCSR (parts ! i)) =
         map (\<lambda>x. x - word_of_nat (vertex_offset ?sizes i))
           (take (unat (indptr (GetInCSR ?G) ! vertex_offset ?sizes (i + 1)) - unat (indptr (GetInCSR ?G) ! vertex_offset ?sizes i))
              (drop (unat (indptr (GetInCSR ?G) ! vertex_offset ?sizes i)) (indices (GetInCSR ?G)))) \<and>
       edge_ids (GetInCSR (parts ! i)) =
         map (\<lambda>x. x - edges_before (indptr (GetInCSR ?G)) (cumsum_from 0 (sizes_data ?sizes)) i)
           (take (unat (indptr (GetInCSR ?G) ! vertex_offset ?sizes (i + 1)) - unat (indptr (GetInCSR ?G) ! vertex_offset ?sizes i))
              (drop (unat (indptr (GetInCSR ?G) ! vertex_offset ?sizes i)) (edge_ids (GetInCSR ?G))))"
    by blast
  have s: "shape0 ?sizes = 2" by code_simp
  have one: "1 < shape0 ?sizes" by code_simp
  have v1: "vertex_offset ?sizes 1 = 2" and v2: "vertex_offset ?sizes (1 + 1) = 3" by code_simp+
  from all one have p: "(\<forall>l. vertex_offset ?sizes 1 < l \<and> l \<le> vertex_offset ?sizes (1 + 1) \<longrightarrow>
          indptr (GetInCSR (parts ! 1)) ! (l - vertex_offset ?sizes 1) =
            indptr (GetInCSR ?G) ! l - indptr (GetInCSR ?G) ! vertex_offset ?sizes 1)"
    and q: "indices (GetInCSR (parts ! 1)) =
         map (\<lambda>x. x - word_of_nat (vertex_offset ?sizes 1))
           (take (unat (indptr (GetInCSR ?G) ! vertex_offset ?sizes (1 + 1)) - unat (indptr (GetInCSR ?G) ! vertex_offset ?sizes 1))
              (drop (unat (indptr (GetInCSR ?G) ! vertex_offset ?sizes 1)) (indices (GetInCSR ?G))))"
    and r: "edge_ids (GetInCSR (parts ! 1)) =
         map (\<lambda>x. x - edges_before (indptr (GetInCSR ?G)) (cumsum_from 0 (sizes_data ?sizes)) 1)
           (take (unat (indptr (GetInCSR ?G) ! vertex_offset ?sizes (1 + 1)) - unat (indptr (GetInCSR ?G) ! vertex_offset ?sizes 1))
              (drop (unat (indptr (GetInCSR ?G) ! vertex_offset ?sizes 1)) (edge_ids (GetInCSR ?G))))"
    by blast+
  from spec [OF p, of 3] have "indptr (GetInCSR (parts ! 1)) ! (3 - vertex_offset ?sizes 1) =
      indptr (GetInCSR ?G) ! 3 - indptr (GetInCSR ?G) ! vertex_offset ?sizes 1"
    unfolding v1 v2 by simp
  also have "3 - vertex_offset ?sizes 1 = 1" unfolding v1 by simp
  also have "indptr (GetInCSR ?G) ! 3 - indptr (GetInCSR ?G) ! vertex_offset ?sizes 1 = 2"
    by code_simp
  finally have a: "indptr (GetInCSR (parts ! 1)) ! 1 = 2" .
  have b: "indices (GetInCSR (parts ! 1)) = [0, 0]"
    unfolding q by code_simp
  have c: "edge_ids (GetInCSR (parts ! 1)) = [0, 1]"
    unfolding r by code_simp
  from run len a b c show ?thesis unfolding s by blast
qed

subsection \<open>The \<^verbatim>\<open>int\<close> counters of CSR partitioning\<close>

lemma counter_overflow_on_large_block:
  assumes n: "2 ^ 31 - 1 \<le> n" "n < 2 ^ 63"
  shows "DisjointPartitionBySizes_immutable
      \<lparr>in_csr = \<lparr>indptr = replicate (Suc n) 0, indices = [], edge_ids = []\<rparr>, out_csr = None\<rparr>
      (id_array [word_of_nat n]) = Inl OutOfRange"
proof -
  define ip where "ip = replicate (Suc n) (0 :: dgl_id_t)"
  have lip: "length ip = Suc n" and ipn: "ip ! n = 0" and ip0: "ip ! 0 = 0"
    unfolding ip_def by (simp_all del: replicate_Suc)
  let ?bg = "\<lparr>indptr = ip, indices = [], edge_ids = []\<rparr>"
  let ?g = "\<lparr>in_csr = ?bg, out_csr = None\<rparr>"
  let ?sizes = "id_array [word_of_nat n :: dgl_id_t]"
  have sn: "sint (word_of_nat n :: dgl_id_t) = int n" by (rule sint_of_nat64 [OF n(2)])
  have szs: "sizes_data ?sizes = [int n]" by (simp add: sizes_data_def id_array_def sn)
  have len: "shape0 ?sizes = 1" by (simp add: shape0_def id_array_def)
  have nn: "int n < 2 ^ 63" using n(2) by (simp only: of_nat_less_numeral_power_cancel_iff)
  have rng: "\<forall>x \<in> set (tl (cumsum_from 0 (sizes_data ?sizes))). - (2 ^ 63) \<le> x \<and> x < 2 ^ 63"
    unfolding szs using nn by simp
  have N: "NumVertices_immutable ?g = n"
    by (simp add: NumVertices_immutable_def CSR_NumVertices_def lip)
  have i1: "int32 1 = 1" by (simp add: int32_small)
  have "(2 ^ 31 - 1 :: int) \<le> int n" using n(1) by simp
  then have b: "(2 ^ 31 - 1 :: int) < int n + 1" by simp
  have pe: "nth_int ip (int n) = Inr 0" and ps: "nth_int ip 0 = Inr 0"
    using ipn ip0 by (simp_all add: nth_int_def lip)
  have step: "partition_step ?bg [int n] [0, int n] 0 ([], 0) = Inl OutOfRange"
    unfolding partition_step_def Let_def
    apply (simp add: pe ps CSR_new_def i1)
    apply (subst for_int_overflow [OF _ _ b])
      apply (auto simp: bind_err_def nth_int_def store_def split: sum.splits if_splits)
    done
  have "DisjointPartitionBySizes_immutable ?g ?sizes = Inl OutOfRange"
    unfolding DisjointPartitionBySizes_immutable_in_range [OF rng] len szs
    by (simp add: N GetInCSR_def step)
  then show ?thesis unfolding ip_def .
qed

text \<open>
  Claim C4 describes the partitions for every immutable graph whose sizes sum to its vertex
  count. The source declares the counters of the three inner loops \<^verbatim>\<open>int\<close> while their bounds
  are \<^verbatim>\<open>int64_t\<close> (the enclosing loop and the loops of \<^verbatim>\<open>DisjointUnion\<close> count in 64 bits). On
  the graph of \<open>2 ^ 31 - 1\<close> isolated vertices, a well-formed CSR with no edge, partitioned
  into one block of all its vertices, the counter of the first loop reaches \<^verbatim>\<open>INT_MAX\<close> while
  still below its bound \<open>end_pos + 1 = 2 ^ 31\<close>, and its increment overflows: the call does
  not return the partition.
\<close>

theorem partition_counter_overflows:
  "wf_csr \<lparr>indptr = replicate (2 ^ 31) 0, indices = [], edge_ids = []\<rparr> \<and>
   NumVertices_immutable
      \<lparr>in_csr = \<lparr>indptr = replicate (2 ^ 31) 0, indices = [], edge_ids = []\<rparr>, out_csr = None\<rparr>
     = 2 ^ 31 - 1 \<and>
   sizes_data (id_array [2 ^ 31 - 1]) = [2 ^ 31 - 1] \<and>
   DisjointPartitionBySizes_immutable
      \<lparr>in_csr = \<lparr>indptr = replicate (2 ^ 31) 0, indices = [], edge_ids = []\<rparr>, out_csr = None\<rparr>
      (id_array [2 ^ 31 - 1]) = Inl OutOfRange"
proof -
  have e1: "Suc (2 ^ 31 - 1) = 2 ^ 31" by simp
  have e2: "(word_of_nat (2 ^ 31 - 1) :: dgl_id_t) = 2 ^ 31 - 1" by simp
  have h1: "2 ^ 31 - 1 \<le> (2 ^ 31 - 1 :: nat)" by simp
  have h2: "(2 ^ 31 - 1 :: nat) < 2 ^ 63" by simp
  have ne: "replicate (2 ^ 31) (0 :: dgl_id_t) \<noteq> []" by simp
  have "last (replicate (2 ^ 31) (0 :: dgl_id_t)) = 0" by (rule last_replicate) simp
  then have w: "wf_csr \<lparr>indptr = replicate (2 ^ 31) 0, indices = [], edge_ids = []\<rparr>"
    unfolding wf_csr_def CSR.select_convs using ne by (simp add: sorted_replicate)
  have n: "NumVertices_immutable
      \<lparr>in_csr = \<lparr>indptr = replicate (2 ^ 31) 0, indices = [], edge_ids = []\<rparr>, out_csr = None\<rparr>
     = 2 ^ 31 - 1"
    by (simp add: NumVertices_immutable_def CSR_NumVertices_def)
  have s: "sizes_data (id_array [2 ^ 31 - 1]) = [2 ^ 31 - 1]"
    by (simp add: sizes_data_def id_array_def)
  from counter_overflow_on_large_block [OF h1 h2]
  have "DisjointPartitionBySizes_immutable
      \<lparr>in_csr = \<lparr>indptr = replicate (2 ^ 31) 0, indices = [], edge_ids = []\<rparr>, out_csr = None\<rparr>
      (id_array [2 ^ 31 - 1]) = Inl OutOfRange"
    unfolding e1 e2 .
  with w n s show ?thesis by (intro conjI)
qed

subsection \<open>Mutable graphs: adding vertices and edges\<close>

lemma edge_triples_snoc:
  "length ys = length xs \<Longrightarrow>
   edge_triples (xs @ [x]) (ys @ [y]) = edge_triples xs ys @ [(x, y, word_of_nat (length xs))]"
  by (simp add: edge_triples_def)

lemma edge_triples_Nil [simp]: "edge_triples [] ys = []"
  by (simp add: edge_triples_def)

lemma out_edges_snoc:
  "length ys = length xs \<Longrightarrow>
   out_edges (xs @ [x]) (ys @ [y]) v =
     (if unat x = v then push_edge (out_edges xs ys v) y (word_of_nat (length xs))
      else out_edges xs ys v)"
  by (simp add: out_edges_def edge_triples_snoc push_edge_def Let_def)

lemma out_edges_empty:
  "\<forall>x \<in> set xs. unat x \<noteq> v \<Longrightarrow> out_edges xs ys v = empty_elist"
proof -
  assume a: "\<forall>x \<in> set xs. unat x \<noteq> v"
  have "filter (\<lambda>t. unat (fst t) = v) (edge_triples xs ys) = []"
    unfolding filter_empty_conv edge_triples_def
    using a by (auto dest: set_zip_leftD)
  then show ?thesis by (simp add: out_edges_def empty_elist_def)
qed

lemma NumVertices_graph_of [simp]: "NumVertices (graph_of n xs ys) = n"
  by (simp add: NumVertices_def graph_of_def)

lemma graph_of_sel [simp]:
  "all_edges_src (graph_of n xs ys) = xs" "all_edges_dst (graph_of n xs ys) = ys"
  "num_edges (graph_of n xs ys) = length xs"
  "length (adjlist (graph_of n xs ys)) = n" "length (reverse_adjlist (graph_of n xs ys)) = n"
  by (simp_all add: graph_of_def)

lemma AddVertices_graph_of:
  assumes "endpoints_ok n xs ys"
  shows "AddVertices k (graph_of n xs ys) = graph_of (n + k) xs ys"
proof -
  have e: "map (out_edges as bs) [n ..< n + k] = replicate k empty_elist"
    if "\<forall>x \<in> set as. unat x < n" for as bs
  proof (rule nth_equalityI)
    show "length (map (out_edges as bs) [n ..< n + k]) = length (replicate k empty_elist)" by simp
  next
    fix i assume "i < length (map (out_edges as bs) [n ..< n + k])"
    then have i: "i < k" by simp
    have "\<forall>x \<in> set as. unat x \<noteq> n + i" using that by auto
    then have "out_edges as bs (n + i) = empty_elist" by (rule out_edges_empty)
    then show "map (out_edges as bs) [n ..< n + k] ! i = replicate k empty_elist ! i"
      using i by simp
  qed
  have split: "[0 ..< n + k] = [0 ..< n] @ [n ..< n + k]"
    by (rule upt_add_eq_append) simp
  from assms have x: "\<forall>x \<in> set xs. unat x < n" and y: "\<forall>y \<in> set ys. unat y < n"
    by (simp_all add: endpoints_ok_def)
  have "map (out_edges xs ys) [0 ..< n + k] = map (out_edges xs ys) [0 ..< n] @ replicate k empty_elist"
    "map (out_edges ys xs) [0 ..< n + k] = map (out_edges ys xs) [0 ..< n] @ replicate k empty_elist"
    by (simp_all only: split map_append e [OF x] e [OF y])
  then show ?thesis
    by (simp add: AddVertices_def graph_of_def)
qed

lemma AddEdge_graph_of:
  assumes len: "length ys = length xs" and s: "unat s < n" and d: "unat d < n"
  shows "AddEdge s d (graph_of n xs ys) = Inr (graph_of n (xs @ [s]) (ys @ [d]))"
proof -
  have upd: "(map (out_edges as bs) [0 ..< n])[unat a := push_edge (map (out_edges as bs) [0 ..< n] ! unat a) b (word_of_nat (length as))]
      = map (out_edges (as @ [a]) (bs @ [b])) [0 ..< n]"
    if "length bs = length as" "unat a < n" for as bs a b
  proof (rule nth_equalityI)
    show "length ((map (out_edges as bs) [0 ..< n])[unat a := push_edge (map (out_edges as bs) [0 ..< n] ! unat a) b (word_of_nat (length as))])
        = length (map (out_edges (as @ [a]) (bs @ [b])) [0 ..< n])" by simp
  next
    fix i assume "i < length ((map (out_edges as bs) [0 ..< n])[unat a := push_edge (map (out_edges as bs) [0 ..< n] ! unat a) b (word_of_nat (length as))])"
    then have i: "i < n" by simp
    show "(map (out_edges as bs) [0 ..< n])[unat a := push_edge (map (out_edges as bs) [0 ..< n] ! unat a) b (word_of_nat (length as))] ! i
        = map (out_edges (as @ [a]) (bs @ [b])) [0 ..< n] ! i"
      using i that by (simp add: nth_list_update out_edges_snoc)
  qed
  show ?thesis
    using s d len upd [OF len s, of d] upd [OF len [symmetric] d, of s]
    by (simp add: AddEdge_def graph_of_def Let_def)
qed


lemma graph_of_empty: "graph_of 0 [] [] = empty_graph"
  by (simp add: graph_of_def empty_graph_def)

lemma wf_graph_empty: "wf_graph empty_graph"
  by (simp add: wf_graph_def endpoints_ok_def empty_graph_def graph_of_def NumVertices_def)

lemma wf_graph_graph_of:
  "endpoints_ok n xs ys \<Longrightarrow> wf_graph (graph_of n xs ys)"
  by (simp add: wf_graph_def)

lemma wf_graph_eq:
  "wf_graph g \<Longrightarrow> g = graph_of (NumVertices g) (all_edges_src g) (all_edges_dst g)"
  by (simp add: wf_graph_def)

lemma endpoints_ok_mono: "endpoints_ok n xs ys \<Longrightarrow> n \<le> n' \<Longrightarrow> endpoints_ok n' xs ys"
  by (auto simp: endpoints_ok_def)

lemma endpoints_ok_snoc:
  "endpoints_ok n xs ys \<Longrightarrow> unat x < n \<Longrightarrow> unat y < n \<Longrightarrow> endpoints_ok n (xs @ [x]) (ys @ [y])"
  by (auto simp: endpoints_ok_def)

lemma wf_graph_AddVertices:
  assumes "wf_graph g"
  shows "wf_graph (AddVertices k g)"
proof -
  let ?n = "NumVertices g" and ?xs = "all_edges_src g" and ?ys = "all_edges_dst g"
  from assms have ok: "endpoints_ok ?n ?xs ?ys" and g: "g = graph_of ?n ?xs ?ys"
    by (simp_all add: wf_graph_def)
  have "AddVertices k g = AddVertices k (graph_of ?n ?xs ?ys)" using g by simp
  also have "\<dots> = graph_of (?n + k) ?xs ?ys" by (rule AddVertices_graph_of [OF ok])
  finally have "AddVertices k g = graph_of (?n + k) ?xs ?ys" .
  moreover have "endpoints_ok (?n + k) ?xs ?ys" by (rule endpoints_ok_mono [OF ok]) simp
  ultimately show ?thesis by (simp add: wf_graph_graph_of)
qed

lemma AddEdge_wf:
  assumes wf: "wf_graph g" and run: "AddEdge s d g = Inr g'"
  shows "g' = graph_of (NumVertices g) (all_edges_src g @ [s]) (all_edges_dst g @ [d]) \<and> wf_graph g'"
proof -
  let ?n = "NumVertices g" and ?xs = "all_edges_src g" and ?ys = "all_edges_dst g"
  from wf have ok: "endpoints_ok ?n ?xs ?ys" and g: "g = graph_of ?n ?xs ?ys"
    by (simp_all add: wf_graph_def)
  have lens: "length (adjlist g) = ?n" "length (reverse_adjlist g) = ?n"
    using g graph_of_sel(4,5) [of ?n ?xs ?ys] by simp_all
  from run have s: "unat s < ?n" and d: "unat d < ?n"
    unfolding AddEdge_def lens by (simp_all split: if_splits)
  from ok have len: "length ?ys = length ?xs" by (simp add: endpoints_ok_def)
  have "AddEdge s d (graph_of ?n ?xs ?ys) = Inr (graph_of ?n (?xs @ [s]) (?ys @ [d]))"
    by (rule AddEdge_graph_of [OF len s d])
  with run g have g': "g' = graph_of ?n (?xs @ [s]) (?ys @ [d])" by simp
  moreover have "endpoints_ok ?n (?xs @ [s]) (?ys @ [d])"
    by (rule endpoints_ok_snoc [OF ok s d])
  ultimately show ?thesis by (simp add: wf_graph_graph_of)
qed

lemma fold_err_invariant:
  assumes step: "\<And>x s s'. x \<in> set xs \<Longrightarrow> I s \<Longrightarrow> f x s = Inr s' \<Longrightarrow> I s'"
    and init: "I s" and run: "fold_err f xs s = Inr s'"
  shows "I s'"
  using assms
proof (induction xs arbitrary: s)
  case Nil
  then show ?case by simp
next
  case (Cons x xs)
  from Cons.prems(3) obtain s1 where s1: "f x s = Inr s1" and rest: "fold_err f xs s1 = Inr s'"
    by (auto split: sum.splits)
  have s1I: "I s1" using Cons.prems(1) [of x s s1] Cons.prems(2) s1 by simp
  have step': "I t'" if "y \<in> set xs" "I t" "f y t = Inr t'" for y t t'
    by (rule Cons.prems(1) [of y t t']) (use that in simp_all)
  show ?case
    by (rule Cons.IH [OF step' s1I rest])
qed

lemma bind_err_Inr_iff:
  "bind_err r f = Inr y \<longleftrightarrow> (\<exists>x. r = Inr x \<and> f x = Inr y)"
  by (cases r) simp_all

lemma line_inner_wf:
  "wf_graph lg \<Longrightarrow> line_inner b i u el j lg = Inr lg' \<Longrightarrow> wf_graph lg'"
  by (auto simp: line_inner_def bind_err_Inr_iff split: if_splits dest: AddEdge_wf)

lemma line_outer_wf:
  assumes "wf_graph lg" and "line_outer g b i lg = Inr lg'"
  shows "wf_graph lg'"
proof -
  from assms(2) obtain v el where
    run: "fold_err (line_inner b i (all_edges_src g ! i) el) [0 ..< length (succ el)] lg = Inr lg'"
    unfolding line_outer_def Let_def bind_err_Inr_iff by blast
  show ?thesis
    by (rule fold_err_invariant [where I = wf_graph, OF _ assms(1) run]) (rule line_inner_wf)
qed

lemma LineGraph_wf:
  assumes "LineGraph g b = Inr lg"
  shows "wf_graph lg"
proof (rule fold_err_invariant [where I = wf_graph])
  show "fold_err (line_outer g b) [0 ..< length (all_edges_src g)]
      (AddVertices (NumEdges g) empty_graph) = Inr lg"
    using assms by (simp add: LineGraph_def)
  show "wf_graph (AddVertices (NumEdges g) empty_graph)"
    by (rule wf_graph_AddVertices [OF wf_graph_empty])
qed (rule line_outer_wf)

lemma union_edge_wf:
  "wf_graph rst \<Longrightarrow> union_edge gr c i rst = Inr rst' \<Longrightarrow> wf_graph rst'"
  by (auto simp: union_edge_def bind_err_Inr_iff dest: AddEdge_wf)

lemma union_graph_wf:
  assumes "wf_graph (fst st)" and "union_graph gr st = Inr st'"
  shows "wf_graph (fst st')"
proof -
  from assms(2) obtain rst' where
    run: "fold_err (union_edge gr (snd st)) [0 ..< NumEdges gr] (AddVertices (NumVertices gr) (fst st)) = Inr rst'"
    and st': "st' = (rst', snd st + NumVertices gr)"
    unfolding union_graph_def Let_def bind_err_Inr_iff by auto
  have "wf_graph rst'"
    by (rule fold_err_invariant [where I = wf_graph, OF _ wf_graph_AddVertices [OF assms(1)] run])
       (rule union_edge_wf)
  then show ?thesis by (simp add: st')
qed

lemma DisjointUnion_wf:
  assumes "DisjointUnion graphs = Inr u"
  shows "wf_graph u"
proof -
  from assms obtain st where run: "fold_err union_graph graphs (empty_graph, 0) = Inr st"
    and u: "u = fst st"
    unfolding DisjointUnion_def bind_err_Inr_iff by auto
  have "wf_graph (fst st)"
    by (rule fold_err_invariant [where I = "\<lambda>st. wf_graph (fst st)", OF _ _ run])
       (simp_all add: union_graph_wf wf_graph_empty)
  then show ?thesis by (simp add: u)
qed

lemma zip_map_same: "zip (map f xs) (map g xs) = map (\<lambda>x. (f x, g x)) xs"
  by (induction xs) simp_all

lemma edge_triples_nth:
  "length ys = length xs \<Longrightarrow> i < length xs \<Longrightarrow>
   edge_triples xs ys ! i = (xs ! i, ys ! i, word_of_nat i)"
  by (simp add: edge_triples_def)

lemma length_edge_triples: "length ys = length xs \<Longrightarrow> length (edge_triples xs ys) = length xs"
  by (simp add: edge_triples_def)

lemma out_edges_member:
  assumes len: "length ys = length xs" and i: "i < length xs"
  shows "(ys ! i, word_of_nat i) \<in>
    set (zip (succ (out_edges xs ys (unat (xs ! i)))) (edge_id (out_edges xs ys (unat (xs ! i)))))"
proof -
  have "edge_triples xs ys ! i \<in> set (edge_triples xs ys)"
    using i by (simp add: length_edge_triples [OF len])
  then have "(xs ! i, ys ! i, word_of_nat i) \<in> set (edge_triples xs ys)"
    by (simp add: edge_triples_nth [OF len i])
  then have "(xs ! i, ys ! i, word_of_nat i) \<in>
      set (filter (\<lambda>t. unat (fst t) = unat (xs ! i)) (edge_triples xs ys))"
    by simp
  then show ?thesis
    by (force simp: out_edges_def Let_def zip_map_same)
qed

lemma wf_graph_adjacency_invariant:
  assumes "wf_graph g"
  shows "adjacency_invariant g"
proof -
  let ?n = "NumVertices g" and ?xs = "all_edges_src g" and ?ys = "all_edges_dst g"
  from assms have ok: "endpoints_ok ?n ?xs ?ys" and g: "g = graph_of ?n ?xs ?ys"
    by (simp_all add: wf_graph_def)
  from ok have len: "length ?ys = length ?xs"
    and xs: "\<forall>x \<in> set ?xs. unat x < ?n" and ys: "\<forall>y \<in> set ?ys. unat y < ?n"
    by (simp_all add: endpoints_ok_def)
  have ne: "NumEdges g = length ?xs"
    using g graph_of_sel(3) [of ?n ?xs ?ys] by (simp add: NumEdges_def)
  have adj: "adjlist g = map (out_edges ?xs ?ys) [0 ..< ?n]"
    and radj: "reverse_adjlist g = map (out_edges ?ys ?xs) [0 ..< ?n]"
    using g by (metis graph_of_def Graph.select_convs(1), metis graph_of_def Graph.select_convs(2))
  have "unat (?xs ! i) < length (adjlist g) \<and>
        unat (?ys ! i) < length (reverse_adjlist g) \<and>
        (?ys ! i, word_of_nat i) \<in>
          set (zip (succ (adjlist g ! unat (?xs ! i))) (edge_id (adjlist g ! unat (?xs ! i)))) \<and>
        (?xs ! i, word_of_nat i) \<in>
          set (zip (succ (reverse_adjlist g ! unat (?ys ! i)))
                   (edge_id (reverse_adjlist g ! unat (?ys ! i))))"
    if i: "i < length ?xs" for i
  proof -
    have sx: "unat (?xs ! i) < ?n" using xs i by simp
    have sy: "unat (?ys ! i) < ?n" using ys i len by simp
    have a: "adjlist g ! unat (?xs ! i) = out_edges ?xs ?ys (unat (?xs ! i))"
      unfolding adj using sx by simp
    have r: "reverse_adjlist g ! unat (?ys ! i) = out_edges ?ys ?xs (unat (?ys ! i))"
      unfolding radj using sy by simp
    have i': "i < length ?ys" using i len by simp
    show ?thesis
      unfolding a r
      using sx sy out_edges_member [OF len i] out_edges_member [OF len [symmetric] i']
      by (simp add: adj radj)
  qed
  then show ?thesis
    unfolding adjacency_invariant_def ne using len by simp
qed


lemma nth_err_Inr [simp]: "i < length xs \<Longrightarrow> nth_err xs i = Inr (xs ! i)"
  by (simp add: nth_err_def)

lemma union_edges_run:
  assumes len: "length ys = length xs"
    and gl: "length (all_edges_dst gr) = length (all_edges_src gr)"
    and inx: "\<forall>x \<in> set (all_edges_src gr). unat (x + word_of_nat V) < N"
    and iny: "\<forall>y \<in> set (all_edges_dst gr). unat (y + word_of_nat V) < N"
  shows "k \<le> length (all_edges_src gr) \<Longrightarrow>
    fold_err (union_edge gr V) [0 ..< k] (graph_of N xs ys) =
      Inr (graph_of N (xs @ map (\<lambda>x. x + word_of_nat V) (take k (all_edges_src gr)))
                      (ys @ map (\<lambda>y. y + word_of_nat V) (take k (all_edges_dst gr))))"
proof (induction k)
  case 0
  then show ?case by simp
next
  case (Suc k)
  let ?S = "all_edges_src gr" and ?D = "all_edges_dst gr"
  let ?f = "\<lambda>x. x + word_of_nat V"
  from Suc.prems have k: "k < length ?S" "k < length ?D" "k \<le> length ?S" using gl by simp_all
  have IH: "fold_err (union_edge gr V) [0 ..< k] (graph_of N xs ys) =
      Inr (graph_of N (xs @ map ?f (take k ?S)) (ys @ map ?f (take k ?D)))"
    by (rule Suc.IH [OF k(3)])
  have l: "length (ys @ map ?f (take k ?D)) = length (xs @ map ?f (take k ?S))"
    using len gl by simp
  have s: "unat (?S ! k + word_of_nat V) < N" using inx k(1) by simp
  have d: "unat (?D ! k + word_of_nat V) < N" using iny k(2) by simp
  have "union_edge gr V k (graph_of N (xs @ map ?f (take k ?S)) (ys @ map ?f (take k ?D))) =
      Inr (graph_of N ((xs @ map ?f (take k ?S)) @ [?f (?S ! k)]) ((ys @ map ?f (take k ?D)) @ [?f (?D ! k)]))"
    unfolding union_edge_def using k AddEdge_graph_of [OF l s d] by simp
  also have "(xs @ map ?f (take k ?S)) @ [?f (?S ! k)] = xs @ map ?f (take (Suc k) ?S)"
    using k(1) by (simp add: take_Suc_conv_app_nth)
  also have "(ys @ map ?f (take k ?D)) @ [?f (?D ! k)] = ys @ map ?f (take (Suc k) ?D)"
    using k(2) by (simp add: take_Suc_conv_app_nth)
  finally show ?case
    by (simp only: upt_Suc_append [OF le0] fold_err_snoc IH bind_err_Inr)
qed

lemma unat_shift:
  fixes x :: dgl_id_t
  assumes "unat x < n" and "V + n \<le> 2 ^ 64"
  shows "unat (x + word_of_nat V) = unat x + V"
proof -
  from assms have "unat x + V < 2 ^ 64" by simp
  then show ?thesis by (rule unat_add_small)
qed

lemma union_graph_run:
  assumes ok: "endpoints_ok V xs ys" and e: "edges_ok gr"
    and bound: "V + NumVertices gr \<le> 2 ^ 64"
  shows "union_graph gr (graph_of V xs ys, V) =
      Inr (graph_of (V + NumVertices gr)
             (xs @ map (\<lambda>x. x + word_of_nat V) (all_edges_src gr))
             (ys @ map (\<lambda>y. y + word_of_nat V) (all_edges_dst gr)),
           V + NumVertices gr)"
    and "endpoints_ok (V + NumVertices gr)
             (xs @ map (\<lambda>x. x + word_of_nat V) (all_edges_src gr))
             (ys @ map (\<lambda>y. y + word_of_nat V) (all_edges_dst gr))"
proof -
  let ?S = "all_edges_src gr" and ?D = "all_edges_dst gr" and ?n = "NumVertices gr"
  from e have m: "NumEdges gr = length ?S" and gl: "length ?D = length ?S"
    and sx: "\<forall>x \<in> set ?S. unat x < ?n" and sy: "\<forall>y \<in> set ?D. unat y < ?n"
    by (simp_all add: edges_ok_def endpoints_ok_def)
  from ok have len: "length ys = length xs"
    and ox: "\<forall>x \<in> set xs. unat x < V" and oy: "\<forall>y \<in> set ys. unat y < V"
    by (simp_all add: endpoints_ok_def)
  have inx: "\<forall>x \<in> set ?S. unat (x + word_of_nat V) < V + ?n"
    using sx unat_shift [OF _ bound] by simp
  have iny: "\<forall>y \<in> set ?D. unat (y + word_of_nat V) < V + ?n"
    using sy unat_shift [OF _ bound] by simp
  have av: "AddVertices ?n (graph_of V xs ys) = graph_of (V + ?n) xs ys"
    by (rule AddVertices_graph_of [OF ok])
  show "union_graph gr (graph_of V xs ys, V) =
      Inr (graph_of (V + ?n) (xs @ map (\<lambda>x. x + word_of_nat V) ?S)
             (ys @ map (\<lambda>y. y + word_of_nat V) ?D), V + ?n)"
    unfolding union_graph_def Let_def fst_conv snd_conv av m
    using union_edges_run [OF len gl inx iny order_refl] gl by simp
  show "endpoints_ok (V + ?n) (xs @ map (\<lambda>x. x + word_of_nat V) ?S)
             (ys @ map (\<lambda>y. y + word_of_nat V) ?D)"
    using len gl ox oy inx iny by (auto simp: endpoints_ok_def)
qed

lemma union_graphs_loop:
  assumes e: "\<forall>g \<in> set p. edges_ok g"
    and bound: "sum_list (map NumVertices p) \<le> 2 ^ 64"
  shows "fold_err union_graph p (empty_graph, 0) =
      Inr (graph_of (sum_list (map NumVertices p))
             (shifted_concat all_edges_src NumVertices p)
             (shifted_concat all_edges_dst NumVertices p),
           sum_list (map NumVertices p)) \<and>
    endpoints_ok (sum_list (map NumVertices p))
             (shifted_concat all_edges_src NumVertices p)
             (shifted_concat all_edges_dst NumVertices p)"
  using assms
proof (induction p rule: rev_induct)
  case Nil
  then show ?case
    by (simp add: shifted_concat_Nil graph_of_empty endpoints_ok_def)
next
  case (snoc g p)
  let ?V = "sum_list (map NumVertices p)"
  let ?xs = "shifted_concat all_edges_src NumVertices p"
  let ?ys = "shifted_concat all_edges_dst NumVertices p"
  from snoc.prems have ep: "\<forall>g \<in> set p. edges_ok g" and eg: "edges_ok g"
    and bp: "?V \<le> 2 ^ 64" and bg: "?V + NumVertices g \<le> 2 ^ 64"
    by simp_all
  from snoc.IH [OF ep bp] have
    run: "fold_err union_graph p (empty_graph, 0) = Inr (graph_of ?V ?xs ?ys, ?V)"
    and ok: "endpoints_ok ?V ?xs ?ys"
    by simp_all
  show ?case
    using union_graph_run [OF ok eg bg]
    by (simp add: fold_err_snoc run shifted_concat_snoc)
qed

text \<open>
  Claim C2. For every list of mutable graphs (each with its two edge arrays of
  \<^verbatim>\<open>NumEdges()\<close> entries and every endpoint one of its vertices, their vertex counts summing
  to less than \<open>2 ^ 64\<close>), \<^verbatim>\<open>DisjointUnion\<close> returns a graph whose vertex count is the sum of
  the inputs' vertex counts, whose edge count is the sum of their edge counts, and whose
  edge arrays are the inputs' edge arrays in input order, each in its own edge-id order,
  with the endpoints of input \<open>k\<close> shifted by the vertex count of the inputs before it.
  Nothing is deduplicated: the arrays are concatenations, entry by entry. The result is the
  graph of these arrays, so the edge at position \<open>i\<close> has edge id \<open>i\<close> in its adjacency lists.
\<close>

theorem DisjointUnion_spec:
  assumes "\<forall>g \<in> set graphs. edges_ok g"
    and "sum_list (map NumVertices graphs) < 2 ^ 64"
  shows "\<exists>u. DisjointUnion graphs = Inr u \<and>
    NumVertices u = sum_list (map NumVertices graphs) \<and>
    NumEdges u = sum_list (map NumEdges graphs) \<and>
    all_edges_src u = shifted_concat all_edges_src NumVertices graphs \<and>
    all_edges_dst u = shifted_concat all_edges_dst NumVertices graphs \<and>
    u = graph_of (NumVertices u) (all_edges_src u) (all_edges_dst u)"
proof -
  let ?V = "sum_list (map NumVertices graphs)"
  let ?xs = "shifted_concat all_edges_src NumVertices graphs"
  let ?ys = "shifted_concat all_edges_dst NumVertices graphs"
  from assms(2) have b: "?V \<le> 2 ^ 64" by simp
  from union_graphs_loop [OF assms(1) b] have
    run: "fold_err union_graph graphs (empty_graph, 0) = Inr (graph_of ?V ?xs ?ys, ?V)"
    by simp
  have u: "DisjointUnion graphs = Inr (graph_of ?V ?xs ?ys)"
    by (simp add: DisjointUnion_def run)
  have "map (\<lambda>g. length (all_edges_src g)) graphs = map NumEdges graphs"
    using assms(1) by (intro map_cong) (simp_all add: edges_ok_def)
  then have ne: "length ?xs = sum_list (map NumEdges graphs)"
    by (simp only: length_shifted_concat)
  show ?thesis
    by (intro exI [of _ "graph_of ?V ?xs ?ys"] conjI u)
       (simp_all add: ne NumEdges_def)
qed

theorem DisjointUnion_spec_witness:
  "\<exists>u. DisjointUnion [graph_of 3 [0, 1] [1, 2], graph_of 2 [0] [1]] = Inr u \<and>
     NumVertices u = 5 \<and> all_edges_src u = [0, 1, 3] \<and> all_edges_dst u = [1, 2, 4]"
proof -
  let ?gs = "[graph_of 3 [0, 1] [1, 2], graph_of 2 [0] [1]]"
  have h1: "\<forall>g \<in> set ?gs. edges_ok g" by code_simp
  have n: "sum_list (map NumVertices ?gs) = 5" by code_simp
  have h2: "sum_list (map NumVertices ?gs) < 2 ^ 64" unfolding n by simp
  have s: "shifted_concat all_edges_src NumVertices ?gs = [0, 1, 3]" by code_simp
  have d: "shifted_concat all_edges_dst NumVertices ?gs = [1, 2, 4]" by code_simp
  from DisjointUnion_spec [OF h1 h2] show ?thesis
    unfolding n s d by blast
qed

subsection \<open>LineGraph\<close>

lemma add_edges_fold:
  assumes len: "length ys = length xs" and a: "unat a < N"
    and ids: "\<forall>j < k. unat (ids ! j) < N" and k: "k \<le> length ids"
  shows "fold_err (\<lambda>j lg. if P j then bind_err (nth_err ids j) (\<lambda>e. AddEdge a e lg) else Inr lg)
      [0 ..< k] (graph_of N xs ys)
    = Inr (graph_of N (xs @ map (\<lambda>j. a) (filter P [0 ..< k]))
                      (ys @ map (\<lambda>j. ids ! j) (filter P [0 ..< k])))"
  using ids k
proof (induction k)
  case 0
  then show ?case by simp
next
  case (Suc k)
  let ?f = "\<lambda>j lg. if P j then bind_err (nth_err ids j) (\<lambda>e. AddEdge a e lg) else Inr lg"
  let ?xs = "xs @ map (\<lambda>j. a) (filter P [0 ..< k])"
  let ?ys = "ys @ map (\<lambda>j. ids ! j) (filter P [0 ..< k])"
  from Suc.prems have kk: "k < length ids" "unat (ids ! k) < N" by simp_all
  have IH: "fold_err ?f [0 ..< k] (graph_of N xs ys) = Inr (graph_of N ?xs ?ys)"
    using Suc by simp
  have l: "length ?ys = length ?xs" using len by simp
  have step: "?f k (graph_of N ?xs ?ys) =
      Inr (graph_of N (xs @ map (\<lambda>j. a) (filter P [0 ..< Suc k]))
                      (ys @ map (\<lambda>j. ids ! j) (filter P [0 ..< Suc k])))"
    using kk AddEdge_graph_of [OF l a kk(2)] by simp
  show ?case
    by (simp only: upt_Suc_append [OF le0] fold_err_snoc IH bind_err_Inr step)
qed

lemma map_filter_nth:
  "map (\<lambda>j. f (es ! j)) (filter (\<lambda>j. Q (es ! j)) [0 ..< length es]) = map f (filter Q es)"
proof -
  have "map f (filter Q es) = map f (filter Q (map ((!) es) [0 ..< length es]))"
    by (simp only: map_nth)
  also have "\<dots> = map (\<lambda>j. f (es ! j)) (filter (\<lambda>j. Q (es ! j)) [0 ..< length es])"
    by (simp only: filter_map map_map o_def)
  finally show ?thesis by (rule sym)
qed

lemma edge_triples_as_map:
  "length ys = length xs \<Longrightarrow>
   edge_triples xs ys = map (\<lambda>j. (xs ! j, ys ! j, word_of_nat j)) [0 ..< length xs]"
  by (rule nth_equalityI) (simp_all add: edge_triples_def)


lemma map_filter_nth_map:
  "map (\<lambda>j. f (map t idx ! j)) (filter (\<lambda>j. Q (map t idx ! j)) [0 ..< length (map t idx)]) =
   map (\<lambda>j. f (t j)) (filter (\<lambda>j. Q (t j)) idx)"
  by (simp only: map_filter_nth filter_map map_map o_def)

lemma wf_graph_facts:
  assumes "wf_graph g"
  shows "length (all_edges_dst g) = length (all_edges_src g)"
    and "NumEdges g = length (all_edges_src g)"
    and "\<forall>x \<in> set (all_edges_src g). unat x < NumVertices g"
    and "\<forall>y \<in> set (all_edges_dst g). unat y < NumVertices g"
    and "adjlist g = map (out_edges (all_edges_src g) (all_edges_dst g)) [0 ..< NumVertices g]"
    and "reverse_adjlist g = map (out_edges (all_edges_dst g) (all_edges_src g)) [0 ..< NumVertices g]"
proof -
  let ?n = "NumVertices g" and ?xs = "all_edges_src g" and ?ys = "all_edges_dst g"
  from assms have ok: "endpoints_ok ?n ?xs ?ys" and g: "g = graph_of ?n ?xs ?ys"
    by (simp_all add: wf_graph_def)
  from ok show "length ?ys = length ?xs" "\<forall>x \<in> set ?xs. unat x < ?n" "\<forall>y \<in> set ?ys. unat y < ?n"
    by (simp_all add: endpoints_ok_def)
  show "NumEdges g = length ?xs"
    using g graph_of_sel(3) [of ?n ?xs ?ys] by (simp add: NumEdges_def)
  show "adjlist g = map (out_edges ?xs ?ys) [0 ..< ?n]"
    using g by (metis graph_of_def Graph.select_convs(1))
  show "reverse_adjlist g = map (out_edges ?ys ?xs) [0 ..< ?n]"
    using g by (metis graph_of_def Graph.select_convs(2))
qed

lemma line_outer_run:
  assumes wf: "wf_graph g" and m: "NumEdges g < 2 ^ 64" and i: "i < NumEdges g"
    and len: "length ys = length xs"
  shows "line_outer g b i (graph_of (NumEdges g) xs ys) =
    Inr (graph_of (NumEdges g) (xs @ map fst (line_row g b i)) (ys @ map snd (line_row g b i)))"
proof -
  let ?S = "all_edges_src g" and ?D = "all_edges_dst g" and ?n = "NumVertices g"
  let ?m = "NumEdges g"
  note f = wf_graph_facts [OF wf]
  have mS: "?m = length ?S" by (rule f(2))
  have iS: "i < length ?S" and iD: "i < length ?D" using i f(1) mS by simp_all
  let ?u = "?S ! i" and ?v = "?D ! i"
  have vn: "unat ?v < ?n" using f(4) iD by simp
  let ?trip = "\<lambda>j. (?S ! j, ?D ! j, word_of_nat j :: dgl_id_t)"
  let ?Q1 = "\<lambda>j. unat (?S ! j) = unat ?v"
  let ?idx = "filter ?Q1 [0 ..< length ?S]"
  let ?es = "map ?trip ?idx"
  have es: "filter (\<lambda>t. unat (fst t) = unat ?v) (edge_triples ?S ?D) = ?es"
    by (simp add: edge_triples_as_map [OF f(1)] filter_map o_def)
  have el: "adjlist g ! unat ?v = \<lparr>succ = map (\<lambda>t. fst (snd t)) ?es, edge_id = map (\<lambda>t. snd (snd t)) ?es\<rparr>"
    using vn by (simp add: f(5) out_edges_def es Let_def del: map_map)
  let ?el = "\<lparr>succ = map (\<lambda>t. fst (snd t)) ?es, edge_id = map (\<lambda>t. snd (snd t)) ?es\<rparr>"
  let ?ids = "map (\<lambda>t. snd (snd t)) ?es"
  let ?P = "\<lambda>j. b \<or> fst (snd (?es ! j)) \<noteq> ?u"
  have inner: "line_inner b i ?u ?el j lg =
      (if ?P j then bind_err (nth_err ?ids j) (\<lambda>e. AddEdge (word_of_nat i) e lg) else Inr lg)"
    if "j < length ?es" for j lg
    using that by (auto simp: line_inner_def simp del: map_map)
  have a: "unat (word_of_nat i :: dgl_id_t) < ?m"
    using i m by (simp add: unat_of_nat64)
  have ids: "\<forall>j < length ?es. unat (?ids ! j) < ?m"
  proof (intro allI impI)
    fix j assume j: "j < length ?es"
    then have "j < length ?idx" by simp
    then have "?idx ! j \<in> set ?idx" by (rule nth_mem)
    then have lt: "?idx ! j < length ?S" by auto
    then have "?idx ! j < 2 ^ 64" using m mS by simp
    then have "unat (word_of_nat (?idx ! j) :: dgl_id_t) = ?idx ! j" by (rule unat_of_nat64)
    then show "unat (?ids ! j) < ?m" using j lt mS by simp
  qed
  have cong: "fold_err (line_inner b i ?u ?el) [0 ..< length ?es] lg0 =
      fold_err (\<lambda>j lg. if ?P j then bind_err (nth_err ?ids j) (\<lambda>e. AddEdge (word_of_nat i) e lg) else Inr lg)
        [0 ..< length ?es] lg0" for lg0
  proof -
    have "\<And>xs. set xs \<subseteq> {0 ..< length ?es} \<Longrightarrow>
        fold_err (line_inner b i ?u ?el) xs lg0 =
        fold_err (\<lambda>j lg. if ?P j then bind_err (nth_err ?ids j) (\<lambda>e. AddEdge (word_of_nat i) e lg) else Inr lg) xs lg0"
      for lg0
    proof -
      fix xs :: "nat list" and lg0
      show "set xs \<subseteq> {0 ..< length ?es} \<Longrightarrow>
        fold_err (line_inner b i ?u ?el) xs lg0 =
        fold_err (\<lambda>j lg. if ?P j then bind_err (nth_err ?ids j) (\<lambda>e. AddEdge (word_of_nat i) e lg) else Inr lg) xs lg0"
      proof (induction xs arbitrary: lg0)
        case Nil
        then show ?case by simp
      next
        case (Cons x xs)
        then have x: "x < length ?es" by simp
        show ?case
          using Cons by (simp only: fold_err.simps inner [OF x]) (auto split: sum.splits)
      qed
    qed
    then show ?thesis by simp
  qed
  have run: "fold_err (line_inner b i ?u ?el) [0 ..< length ?es] (graph_of ?m xs ys) =
      Inr (graph_of ?m (xs @ map (\<lambda>j. word_of_nat i) (filter ?P [0 ..< length ?es]))
                        (ys @ map (\<lambda>j. ?ids ! j) (filter ?P [0 ..< length ?es])))"
    unfolding cong
    by (rule add_edges_fold [OF len a ids]) simp
  have A: "map (\<lambda>j. word_of_nat i :: dgl_id_t) (filter ?P [0 ..< length ?es]) = map fst (line_row g b i)"
  proof -
    have "map (\<lambda>j. word_of_nat i :: dgl_id_t) (filter ?P [0 ..< length ?es]) =
        map (\<lambda>j. word_of_nat i) (filter (\<lambda>j. b \<or> fst (snd (?trip j)) \<noteq> ?u) ?idx)"
      by (rule map_filter_nth_map [where f = "\<lambda>t. word_of_nat i" and Q = "\<lambda>t. b \<or> fst (snd t) \<noteq> ?u"])
    also have "\<dots> = map fst (line_row g b i)"
      by (simp add: line_row_def mS o_def word_unat_eq_iff)
    finally show ?thesis .
  qed
  have B: "map (\<lambda>j. ?ids ! j) (filter ?P [0 ..< length ?es]) = map snd (line_row g b i)"
  proof -
    have "map (\<lambda>j. ?ids ! j) (filter ?P [0 ..< length ?es]) =
        map (\<lambda>j. snd (snd (?es ! j))) (filter ?P [0 ..< length ?es])"
      by (rule map_cong) (auto simp del: map_map)
    also have "\<dots> = map (\<lambda>j. snd (snd (?trip j))) (filter (\<lambda>j. b \<or> fst (snd (?trip j)) \<noteq> ?u) ?idx)"
      by (rule map_filter_nth_map [where f = "\<lambda>t. snd (snd t)" and Q = "\<lambda>t. b \<or> fst (snd t) \<noteq> ?u"])
    also have "\<dots> = map snd (line_row g b i)"
      by (simp add: line_row_def mS o_def word_unat_eq_iff)
    finally show ?thesis .
  qed
  have ladj: "unat ?v < length (adjlist g)" using vn by (simp add: NumVertices_def)
  have "line_outer g b i (graph_of ?m xs ys) =
      fold_err (line_inner b i ?u ?el) [0 ..< length ?es] (graph_of ?m xs ys)"
    unfolding line_outer_def Let_def
    using iD ladj by (simp add: el del: map_map)
  then show ?thesis
    unfolding run A B .
qed


lemma LineGraph_loop:
  assumes wf: "wf_graph g" and m: "NumEdges g < 2 ^ 64"
  shows "k \<le> NumEdges g \<Longrightarrow>
    fold_err (line_outer g b) [0 ..< k] (graph_of (NumEdges g) [] []) =
      Inr (graph_of (NumEdges g)
             (map fst (concat (map (line_row g b) [0 ..< k])))
             (map snd (concat (map (line_row g b) [0 ..< k]))))"
proof (induction k)
  case 0
  then show ?case by simp
next
  case (Suc k)
  let ?L = "concat (map (line_row g b) [0 ..< k])"
  from Suc.prems have k: "k < NumEdges g" "k \<le> NumEdges g" by simp_all
  have IH: "fold_err (line_outer g b) [0 ..< k] (graph_of (NumEdges g) [] []) =
      Inr (graph_of (NumEdges g) (map fst ?L) (map snd ?L))"
    by (rule Suc.IH [OF k(2)])
  have len: "length (map snd ?L) = length (map fst ?L)" by simp
  have step: "line_outer g b k (graph_of (NumEdges g) (map fst ?L) (map snd ?L)) =
      Inr (graph_of (NumEdges g) (map fst ?L @ map fst (line_row g b k))
                                 (map snd ?L @ map snd (line_row g b k)))"
    by (rule line_outer_run [OF wf m k(1) len])
  show ?case
    by (simp only: upt_Suc_append [OF le0] fold_err_snoc IH bind_err_Inr step
          map_append concat_append list.map concat.simps append_Nil2)
qed

lemma word_of_nat_inj64:
  assumes "i < 2 ^ 64" "j < 2 ^ 64" "(word_of_nat i :: dgl_id_t) = word_of_nat j"
  shows "i = j"
  using assms unat_of_nat64 by metis

lemma line_edges_member:
  assumes m: "NumEdges g < 2 ^ 64" and i: "i < NumEdges g" and j: "j < NumEdges g"
  shows "(word_of_nat i, word_of_nat j) \<in> set (line_edges g b) \<longleftrightarrow>
    all_edges_src g ! j = all_edges_dst g ! i \<and> (b \<or> all_edges_dst g ! j \<noteq> all_edges_src g ! i)"
proof
  assume "(word_of_nat i, word_of_nat j) \<in> set (line_edges g b)"
  then obtain i' j' where i': "i' < NumEdges g" and j': "j' < NumEdges g"
    and eq: "(word_of_nat i' :: dgl_id_t) = word_of_nat i" "(word_of_nat j' :: dgl_id_t) = word_of_nat j"
    and c: "all_edges_src g ! j' = all_edges_dst g ! i' \<and> (b \<or> all_edges_dst g ! j' \<noteq> all_edges_src g ! i')"
    by (auto simp: line_edges_def line_row_def)
  have "i' = i" using word_of_nat_inj64 [OF _ _ eq(1)] i i' m by simp
  moreover have "j' = j" using word_of_nat_inj64 [OF _ _ eq(2)] j j' m by simp
  ultimately show "all_edges_src g ! j = all_edges_dst g ! i \<and> (b \<or> all_edges_dst g ! j \<noteq> all_edges_src g ! i)"
    using c by simp
next
  assume "all_edges_src g ! j = all_edges_dst g ! i \<and> (b \<or> all_edges_dst g ! j \<noteq> all_edges_src g ! i)"
  then show "(word_of_nat i, word_of_nat j) \<in> set (line_edges g b)"
    using i j by (auto simp: line_edges_def line_row_def)
qed

text \<open>
  Claim C5. For every well-formed mutable graph \<open>g\<close> (with fewer than \<open>2 ^ 64\<close> edges, so
  that every edge id is a \<^verbatim>\<open>dgl_id_t\<close>) and either value of \<open>backtracking\<close>, \<^verbatim>\<open>LineGraph\<close> returns
  a graph with exactly \<^verbatim>\<open>NumEdges(g)\<close> vertices whose edges are, in order, the pairs \<open>(i, j)\<close>
  for every edge \<open>i\<close> from \<open>u\<close> to \<open>v\<close> and every edge \<open>j\<close> that leaves \<open>v\<close>, except that
  without backtracking every pair whose \<open>j\<close> leads back to \<open>u\<close> is skipped. So the pair
  \<open>(i, j)\<close> is an edge of the line graph exactly when \<open>j\<close> starts where \<open>i\<close> ends and
  backtracking is on or \<open>j\<close> does not end where \<open>i\<close> starts; in particular, without
  backtracking no two mutually reverse edges are joined.
\<close>

theorem LineGraph_spec:
  assumes wf: "wf_graph g" and m: "NumEdges g < 2 ^ 64"
  shows "\<exists>lg. LineGraph g backtracking = Inr lg \<and>
    NumVertices lg = NumEdges g \<and>
    zip (all_edges_src lg) (all_edges_dst lg) = line_edges g backtracking \<and>
    (\<forall>i < NumEdges g. \<forall>j < NumEdges g.
       (word_of_nat i, word_of_nat j) \<in> set (zip (all_edges_src lg) (all_edges_dst lg)) \<longleftrightarrow>
         all_edges_src g ! j = all_edges_dst g ! i \<and>
         (backtracking \<or> all_edges_dst g ! j \<noteq> all_edges_src g ! i)) \<and>
    (\<not> backtracking \<longrightarrow>
       (\<forall>i < NumEdges g. \<forall>j < NumEdges g.
          all_edges_src g ! j = all_edges_dst g ! i \<and> all_edges_dst g ! j = all_edges_src g ! i \<longrightarrow>
          (word_of_nat i, word_of_nat j) \<notin> set (zip (all_edges_src lg) (all_edges_dst lg))))"
proof -
  let ?L = "line_edges g backtracking"
  let ?lg = "graph_of (NumEdges g) (map fst ?L) (map snd ?L)"
  have init: "AddVertices (NumEdges g) empty_graph = graph_of (NumEdges g) [] []"
    using AddVertices_graph_of [of 0 "[]" "[]" "NumEdges g"]
    by (simp add: graph_of_empty endpoints_ok_def)
  have mS: "NumEdges g = length (all_edges_src g)" by (rule wf_graph_facts(2) [OF wf])
  have run: "LineGraph g backtracking = Inr ?lg"
    unfolding LineGraph_def init mS [symmetric] line_edges_def
    by (rule LineGraph_loop [OF wf m order_refl])
  have z: "zip (all_edges_src ?lg) (all_edges_dst ?lg) = ?L"
    by (simp add: zip_map_fst_snd)
  show ?thesis
  proof (intro exI [of _ ?lg] conjI)
    show "LineGraph g backtracking = Inr ?lg" by (rule run)
    show "NumVertices ?lg = NumEdges g" by simp
    show "zip (all_edges_src ?lg) (all_edges_dst ?lg) = ?L" by (rule z)
    show "\<forall>i < NumEdges g. \<forall>j < NumEdges g.
       (word_of_nat i, word_of_nat j) \<in> set (zip (all_edges_src ?lg) (all_edges_dst ?lg)) \<longleftrightarrow>
         all_edges_src g ! j = all_edges_dst g ! i \<and>
         (backtracking \<or> all_edges_dst g ! j \<noteq> all_edges_src g ! i)"
      unfolding z using line_edges_member [OF m] by blast
    show "\<not> backtracking \<longrightarrow>
       (\<forall>i < NumEdges g. \<forall>j < NumEdges g.
          all_edges_src g ! j = all_edges_dst g ! i \<and> all_edges_dst g ! j = all_edges_src g ! i \<longrightarrow>
          (word_of_nat i, word_of_nat j) \<notin> set (zip (all_edges_src ?lg) (all_edges_dst ?lg)))"
      unfolding z using line_edges_member [OF m, of _ _ backtracking] by blast
  qed
qed


theorem LineGraph_spec_witness:
  "\<exists>lg. LineGraph (graph_of 3 [0, 1, 1] [1, 0, 2]) False = Inr lg \<and>
     NumVertices lg = 3 \<and>
     zip (all_edges_src lg) (all_edges_dst lg) = [(0, 2)]"
proof -
  let ?g = "graph_of 3 [0, 1, 1] [1, 0, 2]"
  have h1: "wf_graph ?g" by code_simp
  have n: "NumEdges ?g = 3" by code_simp
  have h2: "NumEdges ?g < 2 ^ 64" unfolding n by simp
  have l: "line_edges ?g False = [(0, 2)]" by code_simp
  from LineGraph_spec [OF h1 h2, of False] show ?thesis
    unfolding n l by blast
qed

subsection \<open>Partitioning a disjoint union of mutable graphs\<close>

lemma edge_triples_fst: "t \<in> set (edge_triples xs ys) \<Longrightarrow> fst t \<in> set xs"
  unfolding edge_triples_def
  using set_zip_leftD [of "fst t" "snd t" xs "zip ys (map word_of_nat [0 ..< length xs])"]
  by simp

lemma edge_triples_append:
  assumes "length ys = length xs" "length bs = length as"
  shows "edge_triples (xs @ as) (ys @ bs) =
    edge_triples xs ys @
    map (\<lambda>t. (fst t, fst (snd t), snd (snd t) + word_of_nat (length xs))) (edge_triples as bs)"
proof -
  have "[0 ..< length xs + length as] = [0 ..< length xs] @ [length xs ..< length xs + length as]"
    by (rule upt_add_eq_append) simp
  moreover have "map (\<lambda>i. i + length xs) [0 ..< length as] = [length xs ..< length xs + length as]"
    by (simp only: map_add_upt add.commute [of "length as"])
  ultimately have u: "[0 ..< length xs + length as] =
      [0 ..< length xs] @ map (\<lambda>i. i + length xs) [0 ..< length as]"
    by (simp only:)
  have "map (\<lambda>t. (fst t, fst (snd t), snd (snd t) + word_of_nat (length xs))) (edge_triples as bs)
      = zip as (zip bs (map (\<lambda>i. word_of_nat (i + length xs)) [0 ..< length as]))"
    unfolding edge_triples_def using assms(2)
    by (intro nth_equalityI) simp_all
  then show ?thesis
    unfolding edge_triples_def using assms
    by (simp add: u o_def)
qed

lemma edge_triples_map:
  "edge_triples (map f xs) (map h ys) =
     map (\<lambda>t. (f (fst t), h (fst (snd t)), snd (snd t))) (edge_triples xs ys)"
  unfolding edge_triples_def
  by (intro nth_equalityI) simp_all

lemma out_edges_append:
  assumes "length ys = length xs" "length bs = length as"
  shows "out_edges (xs @ as) (ys @ bs) v =
    \<lparr>succ = succ (out_edges xs ys v) @ succ (out_edges as bs v),
     edge_id = edge_id (out_edges xs ys v)
       @ map (\<lambda>e. e + word_of_nat (length xs)) (edge_id (out_edges as bs v))\<rparr>"
  by (simp add: out_edges_def Let_def edge_triples_append [OF assms] filter_map o_def)

lemma out_edges_shifted:
  assumes "\<forall>x \<in> set as. unat (x + word_of_nat V) = unat x + V"
  shows "out_edges (map (\<lambda>x. x + word_of_nat V) as) (map (\<lambda>y. y + word_of_nat V) bs) (V + v) =
    \<lparr>succ = map (\<lambda>y. y + word_of_nat V) (succ (out_edges as bs v)),
     edge_id = edge_id (out_edges as bs v)\<rparr>"
proof -
  have "filter (\<lambda>t. unat (fst t + word_of_nat V) = V + v) (edge_triples as bs) =
      filter (\<lambda>t. unat (fst t) = v) (edge_triples as bs)"
  proof (rule filter_cong [OF refl])
    fix t assume "t \<in> set (edge_triples as bs)"
    then have "fst t \<in> set as"
      by (rule edge_triples_fst)
    then have "unat (fst t + word_of_nat V) = unat (fst t) + V" using assms by simp
    then show "(unat (fst t + word_of_nat V) = V + v) = (unat (fst t) = v)" by auto
  qed
  then show ?thesis
    by (simp add: out_edges_def Let_def edge_triples_map filter_map o_def)
qed


lemma sum_map_take_le:
  "sum_list (map c (take k p)) \<le> sum_list (map (c :: 'g \<Rightarrow> nat) p)"
proof -
  have "sum_list (map c p) = sum_list (map c (take k p @ drop k p))" by simp
  also have "\<dots> = sum_list (map c (take k p)) + sum_list (map c (drop k p))"
    by (simp only: map_append sum_list_append)
  finally show ?thesis by simp
qed

lemma sum_map_take_Suc:
  "k < length p \<Longrightarrow>
   sum_list (map c (take (Suc k) p)) = sum_list (map c (take k p)) + (c (p ! k) :: nat)"
  by (simp add: take_Suc_conv_app_nth)

lemma union_block_adj:
  fixes fx fy :: "'g \<Rightarrow> dgl_id_t list" and c :: "'g \<Rightarrow> nat"
  assumes ok: "\<forall>g \<in> set p. endpoints_ok (c g) (fx g) (fy g)"
    and bound: "sum_list (map c p) \<le> 2 ^ 64"
  shows "endpoints_ok (sum_list (map c p)) (shifted_concat fx c p) (shifted_concat fy c p) \<and>
    (\<forall>k < length p. \<forall>v < c (p ! k).
       out_edges (shifted_concat fx c p) (shifted_concat fy c p) (sum_list (map c (take k p)) + v) =
       shift_elist (sum_list (map c (take k p))) (sum_list (map (\<lambda>g. length (fx g)) (take k p)))
         (out_edges (fx (p ! k)) (fy (p ! k)) v))"
  using assms
proof (induction p rule: rev_induct)
  case Nil
  then show ?case by (simp add: shifted_concat_Nil endpoints_ok_def)
next
  case (snoc g p)
  let ?V = "sum_list (map c p)"
  let ?X = "shifted_concat fx c p" and ?Y = "shifted_concat fy c p"
  let ?sh = "\<lambda>x :: dgl_id_t. x + word_of_nat ?V"
  let ?A = "map ?sh (fx g)" and ?B = "map ?sh (fy g)"
  from snoc.prems have okp: "\<forall>g \<in> set p. endpoints_ok (c g) (fx g) (fy g)"
    and okg: "endpoints_ok (c g) (fx g) (fy g)"
    and bp: "?V \<le> 2 ^ 64" and bg: "?V + c g \<le> 2 ^ 64"
    by simp_all
  from snoc.IH [OF okp bp] have IHok: "endpoints_ok ?V ?X ?Y"
    and IH: "\<forall>k < length p. \<forall>v < c (p ! k).
       out_edges ?X ?Y (sum_list (map c (take k p)) + v) =
       shift_elist (sum_list (map c (take k p))) (sum_list (map (\<lambda>g. length (fx g)) (take k p)))
         (out_edges (fx (p ! k)) (fy (p ! k)) v)"
    by simp_all
  from IHok have lXY: "length ?Y = length ?X"
    and Xlt: "\<forall>x \<in> set ?X. unat x < ?V" and Ylt: "\<forall>y \<in> set ?Y. unat y < ?V"
    by (simp_all add: endpoints_ok_def)
  from okg have lg: "length (fy g) = length (fx g)"
    and gx: "\<forall>x \<in> set (fx g). unat x < c g" and gy: "\<forall>y \<in> set (fy g). unat y < c g"
    by (simp_all add: endpoints_ok_def)
  have shx: "\<forall>x \<in> set (fx g). unat (?sh x) = unat x + ?V"
    using gx unat_shift [OF _ bg] by simp
  have shy: "\<forall>y \<in> set (fy g). unat (?sh y) = unat y + ?V"
    using gy unat_shift [OF _ bg] by simp
  have lAB: "length ?B = length ?A" using lg by simp
  have lenX: "length ?X = sum_list (map (\<lambda>g. length (fx g)) p)"
    by (rule length_shifted_concat)
  have app: "out_edges (?X @ ?A) (?Y @ ?B) x =
      \<lparr>succ = succ (out_edges ?X ?Y x) @ succ (out_edges ?A ?B x),
       edge_id = edge_id (out_edges ?X ?Y x)
         @ map (\<lambda>e. e + word_of_nat (length ?X)) (edge_id (out_edges ?A ?B x))\<rparr>" for x
    by (rule out_edges_append [OF lXY lAB])
  have ok': "endpoints_ok (?V + c g) (?X @ ?A) (?Y @ ?B)"
    using lXY lg Xlt Ylt gx gy shx shy by (auto simp: endpoints_ok_def)
  have blocks: "out_edges (?X @ ?A) (?Y @ ?B) (sum_list (map c (take k (p @ [g]))) + v) =
       shift_elist (sum_list (map c (take k (p @ [g]))))
         (sum_list (map (\<lambda>g. length (fx g)) (take k (p @ [g]))))
         (out_edges (fx ((p @ [g]) ! k)) (fy ((p @ [g]) ! k)) v)"
    if k: "k < length (p @ [g])" and v: "v < c ((p @ [g]) ! k)" for k v
  proof (cases "k < length p")
    case True
    let ?Vk = "sum_list (map c (take k p))"
    have v': "v < c (p ! k)" using v True by (simp add: nth_append)
    have "?Vk + c (p ! k) = sum_list (map c (take (Suc k) p))"
      using True by (simp add: sum_map_take_Suc)
    also have "\<dots> \<le> ?V" by (rule sum_map_take_le)
    finally have lt: "?Vk + v < ?V" using v' by simp
    have "\<forall>a \<in> set ?A. unat a \<noteq> ?Vk + v"
      using shx lt by auto
    then have e: "out_edges ?A ?B (?Vk + v) = empty_elist" by (rule out_edges_empty)
    have "out_edges (?X @ ?A) (?Y @ ?B) (?Vk + v) = out_edges ?X ?Y (?Vk + v)"
      unfolding app e by (simp add: empty_elist_def)
    then show ?thesis
      using True IH v' by (simp add: nth_append)
  next
    case False
    with k have kk: "k = length p" by simp
    have "\<forall>x \<in> set ?X. unat x \<noteq> ?V + v" using Xlt by auto
    then have e: "out_edges ?X ?Y (?V + v) = empty_elist" by (rule out_edges_empty)
    have "out_edges (?X @ ?A) (?Y @ ?B) (?V + v) =
        shift_elist ?V (length ?X) (out_edges (fx g) (fy g) v)"
      unfolding app e out_edges_shifted [OF shx]
      by (simp add: empty_elist_def shift_elist_def)
    then show ?thesis
      unfolding kk lenX by simp
  qed
  show ?case
    unfolding shifted_concat_snoc
    using ok' blocks by simp
qed


lemma shifted_concat_slice:
  "k < length p \<Longrightarrow>
   take (length (f (p ! k))) (drop (sum_list (map (\<lambda>g. length (f g)) (take k p))) (shifted_concat f c p)) =
     map (\<lambda>x. x + word_of_nat (sum_list (map c (take k p)))) (f (p ! k))"
proof (induction p rule: rev_induct)
  case Nil
  then show ?case by simp
next
  case (snoc g p)
  let ?X = "shifted_concat f c p"
  let ?M = "map (\<lambda>x. x + word_of_nat (sum_list (map c p))) (f g)"
  have lenX: "length ?X = sum_list (map (\<lambda>g. length (f g)) p)"
    by (rule length_shifted_concat)
  show ?case
  proof (cases "k < length p")
    case True
    let ?Ek = "sum_list (map (\<lambda>g. length (f g)) (take k p))"
    have "?Ek + length (f (p ! k)) = sum_list (map (\<lambda>g. length (f g)) (take (Suc k) p))"
      using True by (simp add: sum_map_take_Suc)
    also have "\<dots> \<le> length ?X" unfolding lenX by (rule sum_map_take_le)
    finally have le: "?Ek + length (f (p ! k)) \<le> length ?X" .
    then have "take (length (f (p ! k))) (drop ?Ek (?X @ ?M)) = take (length (f (p ! k))) (drop ?Ek ?X)"
      by simp
    then show ?thesis
      using True snoc.IH by (simp add: shifted_concat_snoc nth_append)
  next
    case False
    with snoc.prems have kk: "k = length p" by simp
    show ?thesis
      unfolding kk shifted_concat_snoc by (simp add: lenX [symmetric])
  qed
qed

lemma map_err_Inr:
  "(\<And>x. x \<in> set xs \<Longrightarrow> f x = Inr (h x)) \<Longrightarrow> map_err f xs = Inr (map h xs)"
  by (induction xs) simp_all

lemma relabel_shift:
  assumes "length (edge_id el) = length (succ el)"
  shows "relabel (word_of_nat V) (word_of_nat E) (shift_elist V E el) = Inr el"
  using assms by (simp add: relabel_def shift_elist_def o_def)

lemma out_edges_lengths: "length (edge_id (out_edges xs ys v)) = length (succ (out_edges xs ys v))"
  by (simp add: out_edges_def Let_def)

lemma sum_indicator:
  "k < n \<Longrightarrow> sum_list (map (\<lambda>v. if k = v then 1 else 0) [0 ..< n]) = (1::nat)"
proof (induction n)
  case 0
  then show ?case by simp
next
  case (Suc n)
  show ?case
  proof (cases "k = n")
    case True
    then have "sum_list (map (\<lambda>v. if k = v then 1 else 0) [0 ..< n]) = (0::nat)"
      by (simp add: sum_list_eq_0_iff)
    then show ?thesis using True by simp
  next
    case False
    then show ?thesis using Suc by simp
  qed
qed

lemma count_by_key:
  "\<forall>t \<in> set ts. key t < n \<Longrightarrow>
   sum_list (map (\<lambda>v. length (filter (\<lambda>t. key t = v) ts)) [0 ..< n]) = length ts"
proof (induction ts)
  case Nil
  then show ?case by (simp add: sum_list_eq_0_iff)
next
  case (Cons t ts)
  have "sum_list (map (\<lambda>v. length (filter (\<lambda>t. key t = v) (t # ts))) [0 ..< n]) =
      sum_list (map (\<lambda>v. (if key t = v then 1 else 0) + length (filter (\<lambda>t. key t = v) ts)) [0 ..< n])"
    by (intro arg_cong [where f = sum_list] map_cong) simp_all
  also have "\<dots> = sum_list (map (\<lambda>v. if key t = v then 1 else 0) [0 ..< n]) +
      sum_list (map (\<lambda>v. length (filter (\<lambda>t. key t = v) ts)) [0 ..< n])"
    by (rule sum_list_addf)
  also have "\<dots> = 1 + length ts"
    using Cons by (simp add: sum_indicator)
  finally show ?case by simp
qed

lemma out_edges_count:
  assumes "endpoints_ok n xs ys"
  shows "sum_list (map (\<lambda>el. length (succ el)) (map (out_edges xs ys) [0 ..< n])) = length xs"
proof -
  from assms have len: "length ys = length xs" and lt: "\<forall>x \<in> set xs. unat x < n"
    by (simp_all add: endpoints_ok_def)
  have "\<forall>t \<in> set (edge_triples xs ys). unat (fst t) < n"
    using lt edge_triples_fst by blast
  then have "sum_list (map (\<lambda>v. length (filter (\<lambda>t. unat (fst t) = v) (edge_triples xs ys))) [0 ..< n])
      = length (edge_triples xs ys)"
    by (rule count_by_key)
  then show ?thesis
    by (simp add: out_edges_def Let_def o_def length_edge_triples [OF len])
qed

lemma copy_edges_run:
  assumes "E + m \<le> length (all_edges_src u)" "E + m \<le> length (all_edges_dst u)"
  shows "fold_err (copy_edge u off) [E ..< E + m] ([], []) =
    Inr (map (\<lambda>x. x - off) (take m (drop E (all_edges_src u))),
         map (\<lambda>x. x - off) (take m (drop E (all_edges_dst u))))"
  using assms
proof (induction m)
  case 0
  then show ?case by simp
next
  case (Suc m)
  let ?S = "all_edges_src u" and ?D = "all_edges_dst u"
  from Suc.prems have b: "E + m < length ?S" "E + m < length ?D" by simp_all
  have IH: "fold_err (copy_edge u off) [E ..< E + m] ([], []) =
    Inr (map (\<lambda>x. x - off) (take m (drop E ?S)), map (\<lambda>x. x - off) (take m (drop E ?D)))"
    using Suc by simp
  have t: "take (Suc m) (drop E ?S) = take m (drop E ?S) @ [?S ! (E + m)]"
    "take (Suc m) (drop E ?D) = take m (drop E ?D) @ [?D ! (E + m)]"
    using b by (simp_all add: take_Suc_conv_app_nth)
  have "[E ..< E + Suc m] = [E ..< E + m] @ [E + m]" by simp
  then show ?case
    using b by (simp only: fold_err_snoc IH bind_err_Inr) (simp add: copy_edge_def t)
qed


lemma map_err_map_inverse:
  "(\<And>x. x \<in> set xs \<Longrightarrow> f (s x) = Inr x) \<Longrightarrow> map_err f (map s xs) = Inr xs"
  by (induction xs) simp_all

lemma partition_graph_run:
  assumes wf: "wf_graph g"
    and sz: "szs ! i = int (NumVertices g)"
    and la: "V + NumVertices g \<le> length (adjlist u)"
    and lr: "V + NumVertices g \<le> length (reverse_adjlist u)"
    and adj: "take (NumVertices g) (drop V (adjlist u)) = map (shift_elist V E) (adjlist g)"
    and radj: "take (NumVertices g) (drop V (reverse_adjlist u)) = map (shift_elist V E) (reverse_adjlist g)"
    and ls: "E + NumEdges g \<le> length (all_edges_src u)"
    and ld: "E + NumEdges g \<le> length (all_edges_dst u)"
    and src: "take (NumEdges g) (drop E (all_edges_src u)) = map (\<lambda>x. x + word_of_nat V) (all_edges_src g)"
    and dst: "take (NumEdges g) (drop E (all_edges_dst u)) = map (\<lambda>x. x + word_of_nat V) (all_edges_dst g)"
  shows "partition_graph u szs i (rst, V, E) = Inr (rst @ [g], V + NumVertices g, E + NumEdges g)"
proof -
  let ?n = "NumVertices g" and ?m = "NumEdges g"
  let ?S = "all_edges_src g" and ?D = "all_edges_dst g"
  note f = wf_graph_facts [OF wf]
  from wf have ok: "endpoints_ok ?n ?S ?D" by (simp add: wf_graph_def)
  then have ok': "endpoints_ok ?n ?D ?S" by (simp add: endpoints_ok_def)
  have r1: "map_err (relabel (word_of_nat V) (word_of_nat E)) (map (shift_elist V E) (adjlist g)) =
      Inr (adjlist g)"
  proof (rule map_err_map_inverse)
    fix el assume "el \<in> set (adjlist g)"
    then have "length (edge_id el) = length (succ el)"
      unfolding f(5) by (auto simp: out_edges_lengths)
    then show "relabel (word_of_nat V) (word_of_nat E) (shift_elist V E el) = Inr el"
      by (rule relabel_shift)
  qed
  have r2: "map_err (relabel (word_of_nat V) (word_of_nat E)) (map (shift_elist V E) (reverse_adjlist g)) =
      Inr (reverse_adjlist g)"
  proof (rule map_err_map_inverse)
    fix el assume "el \<in> set (reverse_adjlist g)"
    then have "length (edge_id el) = length (succ el)"
      unfolding f(6) by (auto simp: out_edges_lengths)
    then show "relabel (word_of_nat V) (word_of_nat E) (shift_elist V E el) = Inr el"
      by (rule relabel_shift)
  qed
  have cnt: "sum_list (map (\<lambda>el. length (succ el)) (adjlist g)) = ?m"
    unfolding f(5) f(2) by (rule out_edges_count [OF ok])
  have cp: "fold_err (copy_edge u (word_of_nat V)) [E ..< E + ?m] ([], []) = Inr (?S, ?D)"
    unfolding copy_edges_run [OF ls ld] src dst by (simp add: o_def)
  have g: "\<lparr>adjlist = adjlist g, reverse_adjlist = reverse_adjlist g, all_edges_src = ?S,
        all_edges_dst = ?D, num_edges = ?m\<rparr> = g"
    by (simp add: NumEdges_def)
  have n: "nat (int ?n) = ?n" by simp
  have guard: "\<not> (int ?n < 0 \<or> length (adjlist u) < V + ?n \<or> length (reverse_adjlist u) < V + ?n)"
    using la lr by simp
  show ?thesis
    unfolding partition_graph_def Let_def fst_conv snd_conv sz n adj radj r1 r2 bind_err_Inr cnt cp g
    using guard by (simp add: NumVertices_def NumEdges_def)
qed


lemma partition_graphs_loop:
  assumes step: "\<And>k rst. k < length gs \<Longrightarrow>
      partition_graph u szs k
        (rst, sum_list (map NumVertices (take k gs)), sum_list (map NumEdges (take k gs))) =
      Inr (rst @ [gs ! k], sum_list (map NumVertices (take (Suc k) gs)),
           sum_list (map NumEdges (take (Suc k) gs)))"
  shows "k \<le> length gs \<Longrightarrow>
    fold_err (partition_graph u szs) [0 ..< k] ([], 0, 0) =
      Inr (take k gs, sum_list (map NumVertices (take k gs)), sum_list (map NumEdges (take k gs)))"
proof (induction k)
  case 0
  then show ?case by simp
next
  case (Suc k)
  then have k: "k < length gs" "k \<le> length gs" by simp_all
  have IH: "fold_err (partition_graph u szs) [0 ..< k] ([], 0, 0) =
      Inr (take k gs, sum_list (map NumVertices (take k gs)), sum_list (map NumEdges (take k gs)))"
    by (rule Suc.IH [OF k(2)])
  have t: "take (Suc k) gs = take k gs @ [gs ! k]"
    using k(1) by (rule take_Suc_conv_app_nth)
  show ?case
    by (simp only: upt_Suc_append [OF le0] fold_err_snoc IH bind_err_Inr step [OF k(1)])
       (simp only: t)
qed

lemma take_drop_map_upt:
  "V + n \<le> N \<Longrightarrow> take n (drop V (map h [0 ..< N])) = map (\<lambda>v. h (V + v)) [0 ..< n]"
  by (rule nth_equalityI) simp_all

lemma partition_blocks:
  assumes wf: "\<forall>g \<in> set gs. wf_graph g"
    and bound: "sum_list (map NumVertices gs) < 2 ^ 63"
    and szs: "sizes_data sizes = map int (map NumVertices gs)"
  shows "DisjointPartitionBySizes
      (graph_of (sum_list (map NumVertices gs)) (shifted_concat all_edges_src NumVertices gs)
         (shifted_concat all_edges_dst NumVertices gs)) sizes = Inr gs"
proof -
  let ?N = "sum_list (map NumVertices gs)"
  let ?S = "shifted_concat all_edges_src NumVertices gs"
  let ?D = "shifted_concat all_edges_dst NumVertices gs"
  let ?u = "graph_of ?N ?S ?D"
  let ?V = "\<lambda>k. sum_list (map NumVertices (take k gs))"
  let ?E = "\<lambda>k. sum_list (map NumEdges (take k gs))"
  from bound have b64: "?N \<le> 2 ^ 64" by simp
  have okx: "\<forall>g \<in> set gs. endpoints_ok (NumVertices g) (all_edges_src g) (all_edges_dst g)"
    using wf by (simp add: wf_graph_def)
  then have oky: "\<forall>g \<in> set gs. endpoints_ok (NumVertices g) (all_edges_dst g) (all_edges_src g)"
    by (simp add: endpoints_ok_def)
  have Es: "sum_list (map (\<lambda>g. length (all_edges_src g)) (take k gs)) = ?E k" for k
  proof -
    have "map (\<lambda>g. length (all_edges_src g)) (take k gs) = map NumEdges (take k gs)"
      using wf wf_graph_facts(2) by (intro map_cong refl) (auto dest: in_set_takeD)
    then show ?thesis by (simp only:)
  qed
  have Ed: "sum_list (map (\<lambda>g. length (all_edges_dst g)) (take k gs)) = ?E k" for k
  proof -
    have "map (\<lambda>g. length (all_edges_dst g)) (take k gs) = map NumEdges (take k gs)"
      using wf wf_graph_facts(1,2) by (intro map_cong refl) (auto dest: in_set_takeD)
    then show ?thesis by (simp only:)
  qed
  have lenS: "length ?S = sum_list (map NumEdges gs)"
    using Es [of "length gs"] by (simp add: length_shifted_concat)
  have lenD: "length ?D = sum_list (map NumEdges gs)"
    using Ed [of "length gs"] by (simp add: length_shifted_concat)
  have step: "partition_graph ?u (sizes_data sizes) k (rst, ?V k, ?E k) =
      Inr (rst @ [gs ! k], ?V (Suc k), ?E (Suc k))"
    if k: "k < length gs" for k rst
  proof -
    let ?g = "gs ! k"
    let ?n = "NumVertices ?g" and ?m = "NumEdges ?g"
    have gin: "?g \<in> set gs" using k by simp
    then have wfg: "wf_graph ?g" using wf by simp
    note f = wf_graph_facts [OF wfg]
    have Vs: "?V (Suc k) = ?V k + ?n" and Es': "?E (Suc k) = ?E k + ?m"
      using k by (simp_all add: sum_map_take_Suc)
    have VN: "?V k + ?n \<le> ?N" unfolding Vs [symmetric] by (rule sum_map_take_le)
    have EM: "?E k + ?m \<le> sum_list (map NumEdges gs)" unfolding Es' [symmetric] by (rule sum_map_take_le)
    have sz: "sizes_data sizes ! k = int ?n"
      using k by (simp add: szs)
    have adj: "take ?n (drop (?V k) (adjlist ?u)) = map (shift_elist (?V k) (?E k)) (adjlist ?g)"
    proof -
      have "take ?n (drop (?V k) (adjlist ?u)) = map (\<lambda>v. out_edges ?S ?D (?V k + v)) [0 ..< ?n]"
        unfolding graph_of_def Graph.select_convs by (rule take_drop_map_upt [OF VN])
      also have "\<dots> = map (\<lambda>v. shift_elist (?V k) (?E k) (out_edges (all_edges_src ?g) (all_edges_dst ?g) v)) [0 ..< ?n]"
        using union_block_adj [OF okx b64] k by (intro map_cong refl) (simp add: Es)
      also have "\<dots> = map (shift_elist (?V k) (?E k)) (adjlist ?g)"
        unfolding f(5) by (simp add: o_def)
      finally show ?thesis .
    qed
    have radj: "take ?n (drop (?V k) (reverse_adjlist ?u)) = map (shift_elist (?V k) (?E k)) (reverse_adjlist ?g)"
    proof -
      have "take ?n (drop (?V k) (reverse_adjlist ?u)) = map (\<lambda>v. out_edges ?D ?S (?V k + v)) [0 ..< ?n]"
        unfolding graph_of_def Graph.select_convs by (rule take_drop_map_upt [OF VN])
      also have "\<dots> = map (\<lambda>v. shift_elist (?V k) (?E k) (out_edges (all_edges_dst ?g) (all_edges_src ?g) v)) [0 ..< ?n]"
        using union_block_adj [OF oky b64] k by (intro map_cong refl) (simp add: Ed)
      also have "\<dots> = map (shift_elist (?V k) (?E k)) (reverse_adjlist ?g)"
        unfolding f(6) by (simp add: o_def)
      finally show ?thesis .
    qed
    have src: "take ?m (drop (?E k) (all_edges_src ?u)) = map (\<lambda>x. x + word_of_nat (?V k)) (all_edges_src ?g)"
      using shifted_concat_slice [OF k, of all_edges_src NumVertices] by (simp add: Es f(2))
    have dst: "take ?m (drop (?E k) (all_edges_dst ?u)) = map (\<lambda>x. x + word_of_nat (?V k)) (all_edges_dst ?g)"
      using shifted_concat_slice [OF k, of all_edges_dst NumVertices] by (simp add: Ed f(1) f(2))
    have la: "?V k + ?n \<le> length (adjlist ?u)" and lr: "?V k + ?n \<le> length (reverse_adjlist ?u)"
      using VN by simp_all
    have ls: "?E k + ?m \<le> length (all_edges_src ?u)" and ld: "?E k + ?m \<le> length (all_edges_dst ?u)"
      using EM by (simp_all add: lenS lenD)
    show ?thesis
      unfolding Vs Es'
      by (rule partition_graph_run [OF wfg sz la lr adj radj ls ld src dst])
  qed
  have loop: "fold_err (partition_graph ?u (sizes_data sizes)) [0 ..< length gs] ([], 0, 0) =
      Inr (gs, ?N, sum_list (map NumEdges gs))"
    using partition_graphs_loop [of gs ?u "sizes_data sizes" "length gs", OF step order_refl]
    by simp
  have "length (sizes_data sizes) = length gs" unfolding szs by simp
  then have len: "shape0 sizes = length gs" by (simp add: shape0_def sizes_data_def)
  have "cumsum_from 0 (sizes_data sizes) ! shape0 sizes =
      cumsum_from 0 (map int (map NumVertices gs)) ! length (map NumVertices gs)"
    unfolding szs len by simp
  also have "\<dots> = int (sum_list (take (length (map NumVertices gs)) (map NumVertices gs)))"
    by (rule cumsum_nat) simp
  also have "\<dots> = int (NumVertices ?u)" by simp
  finally have chk: "cumsum_from 0 (sizes_data sizes) ! shape0 sizes = int (NumVertices ?u)" .
  have "sum_list (map NumVertices gs) < 2 ^ 63" by (rule bound)
  then have "\<forall>x \<in> set (tl (cumsum_from 0 (map int (map NumVertices gs)))). - (2 ^ 63) \<le> x \<and> x < 2 ^ 63"
    by (rule cumsum_range_nat)
  then have rng: "\<forall>x \<in> set (tl (cumsum_from 0 (sizes_data sizes))). - (2 ^ 63) \<le> x \<and> x < 2 ^ 63"
    unfolding szs .
  show ?thesis
    unfolding DisjointPartitionBySizes_in_range [OF rng]
    using chk by (simp add: len loop)
qed

lemma partition_union:
  assumes wf: "\<forall>g \<in> set gs. wf_graph g"
    and bound: "sum_list (map NumVertices gs) < 2 ^ 63"
  shows "\<exists>u. DisjointUnion gs = Inr u \<and>
    DisjointPartitionBySizes u (id_array (map (\<lambda>g. word_of_nat (NumVertices g)) gs)) = Inr gs"
proof -
  let ?N = "sum_list (map NumVertices gs)"
  let ?u = "graph_of ?N (shifted_concat all_edges_src NumVertices gs)
      (shifted_concat all_edges_dst NumVertices gs)"
  let ?sizes = "id_array (map (\<lambda>g. word_of_nat (NumVertices g)) gs)"
  from bound have b64: "?N \<le> 2 ^ 64" by simp
  have eok: "\<forall>g \<in> set gs. edges_ok g"
    using wf wf_graph_facts(2) by (auto simp: edges_ok_def wf_graph_def)
  from union_graphs_loop [OF eok b64] have
    run: "fold_err union_graph gs (empty_graph, 0) = Inr (?u, ?N)" by simp
  have u: "DisjointUnion gs = Inr ?u"
    by (simp add: DisjointUnion_def run)
  have szs: "sizes_data ?sizes = map int (map NumVertices gs)"
  proof -
    have "sint (word_of_nat (NumVertices g) :: dgl_id_t) = int (NumVertices g)" if "g \<in> set gs" for g
    proof -
      have "NumVertices g \<le> ?N" using that by (simp add: member_le_sum_list)
      then have "NumVertices g < 2 ^ 63" using bound by simp
      then show ?thesis by (rule sint_of_nat64)
    qed
    then show ?thesis by (simp add: sizes_data_def id_array_def)
  qed
  from partition_blocks [OF wf bound szs] u show ?thesis by blast
qed


text \<open>
  Claim C1. For every ordered list of well-formed mutable graphs (their vertex counts summing
  to less than \<open>2 ^ 63\<close>, so that every size is an \<^verbatim>\<open>int64_t\<close>), \<^verbatim>\<open>DisjointUnion\<close> succeeds, and
  \<^verbatim>\<open>DisjointPartitionBySizes\<close> applied to its result with the vertex counts of the inputs, in
  order, returns exactly the list of the inputs: each graph's adjacency lists, reverse
  adjacency lists and edge-id-indexed source and destination arrays all coincide.
\<close>

theorem DisjointPartitionBySizes_inverts_DisjointUnion:
  assumes wf: "\<forall>g \<in> set gs. wf_graph g"
    and bound: "sum_list (map NumVertices gs) < 2 ^ 63"
  shows "\<exists>u parts. DisjointUnion gs = Inr u \<and>
    DisjointPartitionBySizes u (id_array (map (\<lambda>g. word_of_nat (NumVertices g)) gs)) = Inr parts \<and>
    parts = gs \<and>
    (\<forall>k < length gs.
       adjlist (parts ! k) = adjlist (gs ! k) \<and>
       reverse_adjlist (parts ! k) = reverse_adjlist (gs ! k) \<and>
       all_edges_src (parts ! k) = all_edges_src (gs ! k) \<and>
       all_edges_dst (parts ! k) = all_edges_dst (gs ! k))"
proof -
  from partition_union [OF wf bound] obtain u where
    u: "DisjointUnion gs = Inr u"
    and p: "DisjointPartitionBySizes u (id_array (map (\<lambda>g. word_of_nat (NumVertices g)) gs)) = Inr gs"
    by blast
  show ?thesis
  proof (intro exI conjI)
    show "DisjointUnion gs = Inr u" by (rule u)
    show "DisjointPartitionBySizes u (id_array (map (\<lambda>g. word_of_nat (NumVertices g)) gs)) = Inr gs"
      by (rule p)
    show "gs = gs" by (rule refl)
    show "\<forall>k < length gs.
       adjlist (gs ! k) = adjlist (gs ! k) \<and>
       reverse_adjlist (gs ! k) = reverse_adjlist (gs ! k) \<and>
       all_edges_src (gs ! k) = all_edges_src (gs ! k) \<and>
       all_edges_dst (gs ! k) = all_edges_dst (gs ! k)"
      by simp
  qed
qed

theorem DisjointPartitionBySizes_inverts_DisjointUnion_witness:
  "\<exists>u. DisjointUnion [graph_of 3 [0, 1] [1, 2], graph_of 2 [0] [1]] = Inr u \<and>
     DisjointPartitionBySizes u (id_array [3, 2]) =
       Inr [graph_of 3 [0, 1] [1, 2], graph_of 2 [0] [1]]"
proof -
  let ?gs = "[graph_of 3 [0, 1] [1, 2], graph_of 2 [0] [1]]"
  have h1: "\<forall>g \<in> set ?gs. wf_graph g" by code_simp
  have n: "sum_list (map NumVertices ?gs) = 5" by code_simp
  have h2: "sum_list (map NumVertices ?gs) < 2 ^ 63" unfolding n by simp
  have s: "id_array (map (\<lambda>g. word_of_nat (NumVertices g)) ?gs) = id_array [3, 2]" by code_simp
  from DisjointPartitionBySizes_inverts_DisjointUnion [OF h1 h2] show ?thesis
    unfolding s by blast
qed

subsection \<open>Partitioning a mutable graph laid out in blocks\<close>

lemma cumsum_from_snoc:
  "cumsum_from c (ss @ [s]) = cumsum_from c ss @ [c + sum_list ss + s]"
  by (induction ss arbitrary: c) (simp_all add: algebra_simps)

lemma tl_cumsum_snoc:
  "tl (cumsum_from c (ss @ [s])) = tl (cumsum_from c ss) @ [c + sum_list ss + s]"
  unfolding cumsum_from_snoc by (cases ss) simp_all

lemma block_of_snoc:
  assumes "unat v < sum_list ns + n"
  shows "block_of (cumsum_from 0 (map int (ns @ [n]))) v = block_of (cumsum_from 0 (map int ns)) v"
proof -
  define a where "a = unat v"
  have ua: "uint v = int a" unfolding a_def by simp
  have "int a < int (sum_list ns + n)" using assms unfolding a_def by (simp only: of_nat_less_iff)
  then have "\<not> sum_list (map int ns) + int n \<le> int a"
    by (simp add: sum_list_of_nat)
  then show ?thesis
    unfolding block_of_def ua by (simp add: tl_cumsum_snoc)
qed

lemma block_of_le: "block_of (cumsum_from 0 (map int ns)) v \<le> length ns"
proof -
  have "length (filter (\<lambda>c. c \<le> uint v) (tl (cumsum_from 0 (map int ns))))
      \<le> length (tl (cumsum_from 0 (map int ns)))"
    by (rule length_filter_le)
  then show ?thesis by (simp add: block_of_def)
qed

lemma block_of_last:
  "block_of (cumsum_from 0 (map int ns)) v < length ns \<longleftrightarrow> unat v < sum_list ns"
proof (induction ns rule: rev_induct)
  case Nil
  then show ?case by (simp add: block_of_def)
next
  case (snoc n ns)
  define a where "a = unat v"
  have ua: "uint v = int a" unfolding a_def by simp
  let ?b = "block_of (cumsum_from 0 (map int ns)) v"
  have le: "?b \<le> length ns" by (rule block_of_le)
  have e: "sum_list (map int ns) + int n = int (sum_list ns + n)" by (simp add: sum_list_of_nat)
  have "block_of (cumsum_from 0 (map int (ns @ [n]))) v =
      ?b + (if sum_list (map int ns) + int n \<le> int a then 1 else 0)"
    unfolding block_of_def ua by (simp add: tl_cumsum_snoc)
  then have b: "block_of (cumsum_from 0 (map int (ns @ [n]))) v =
      ?b + (if sum_list ns + n \<le> a then 1 else 0)"
    unfolding e by (simp only: of_nat_le_iff)
  have IH: "?b < length ns \<longleftrightarrow> a < sum_list ns" using snoc.IH unfolding a_def .
  show ?case
  proof (cases "sum_list ns + n \<le> a")
    case True
    then have "\<not> a < sum_list ns" by simp
    with IH have "\<not> ?b < length ns" by simp
    with le have "?b = length ns" by simp
    then show ?thesis unfolding b a_def [symmetric] using True by simp
  next
    case False
    then show ?thesis unfolding b a_def [symmetric] using le by simp
  qed
qed

lemma sorted_prefix_index:
  fixes bs :: "nat list"
  shows "sorted bs \<Longrightarrow> i < length bs \<Longrightarrow>
    i < length (filter (\<lambda>b. b < k) bs) \<longleftrightarrow> bs ! i < k"
proof (induction bs arbitrary: i)
  case Nil
  then show ?case by simp
next
  case (Cons b bs)
  from Cons.prems(1) have srt: "sorted bs" and le: "\<forall>y \<in> set bs. b \<le> y" by simp_all
  show ?case
  proof (cases "b < k")
    case True
    show ?thesis
    proof (cases i)
      case 0
      then show ?thesis using True by simp
    next
      case (Suc j)
      then have "j < length bs" using Cons.prems(2) by simp
      from Cons.IH [OF srt this] show ?thesis using True Suc by simp
    qed
  next
    case False
    then have "\<forall>y \<in> set bs. \<not> y < k" using le by auto
    then have "filter (\<lambda>b. b < k) bs = []" by (simp add: filter_empty_conv)
    moreover have "\<not> (b # bs) ! i < k"
    proof (cases i)
      case 0
      then show ?thesis using False by simp
    next
      case (Suc j)
      then have "bs ! j \<in> set bs" using Cons.prems(2) by simp
      then show ?thesis using \<open>\<forall>y \<in> set bs. \<not> y < k\<close> Suc by simp
    qed
    ultimately show ?thesis using False by simp
  qed
qed

lemma block_decomposition:
  "endpoints_ok (sum_list ns) xs ys \<Longrightarrow>
   map (block_of (cumsum_from 0 (map int ns))) ys = map (block_of (cumsum_from 0 (map int ns))) xs \<Longrightarrow>
   sorted (map (block_of (cumsum_from 0 (map int ns))) xs) \<Longrightarrow>
   \<exists>gs. map NumVertices gs = ns \<and> (\<forall>g \<in> set gs. wf_graph g) \<and>
     shifted_concat all_edges_src NumVertices gs = xs \<and>
     shifted_concat all_edges_dst NumVertices gs = ys"
proof (induction ns arbitrary: xs ys rule: rev_induct)
  case Nil
  then have "xs = []" "ys = []"
    by (auto simp: endpoints_ok_def intro: ccontr) 
  then show ?case by (intro exI [of _ "[]"]) (simp add: shifted_concat_Nil)
next
  case (snoc n ns)
  let ?S = "sum_list ns" and ?k = "length ns"
  let ?b' = "block_of (cumsum_from 0 (map int (ns @ [n])))"
  let ?b = "block_of (cumsum_from 0 (map int ns))"
  from snoc.prems(1) have len: "length ys = length xs"
    and xlt: "\<forall>x \<in> set xs. unat x < ?S + n" and ylt: "\<forall>y \<in> set ys. unat y < ?S + n"
    by (simp_all add: endpoints_ok_def)
  have bs: "?b' v = ?b v" if "unat v < ?S + n" for v using that by (rule block_of_snoc)
  have bx: "map ?b' xs = map ?b xs" by (rule map_cong [OF refl]) (use xlt bs in blast)
  have by': "map ?b' ys = map ?b ys" by (rule map_cong [OF refl]) (use ylt bs in blast)
  have same: "map ?b ys = map ?b xs" using snoc.prems(2) unfolding bx by' .
  have srt: "sorted (map ?b xs)" using snoc.prems(3) unfolding bx .
  define m where "m = length (filter (\<lambda>c. c < ?k) (map ?b xs))"
  have mle: "m \<le> length xs"
    unfolding m_def using length_filter_le [of "\<lambda>c. c < ?k" "map ?b xs"] by simp
  have ix: "i < m \<longleftrightarrow> unat (xs ! i) < ?S" if "i < length xs" for i
  proof -
    from that have "i < length (map ?b xs)" by simp
    from sorted_prefix_index [OF srt this, of ?k]
    have "i < m \<longleftrightarrow> ?b (xs ! i) < ?k" unfolding m_def using that by simp
    then show ?thesis by (simp only: block_of_last)
  qed
  have iy: "i < m \<longleftrightarrow> unat (ys ! i) < ?S" if "i < length xs" for i
  proof -
    from that have i: "i < length (map ?b xs)" by simp
    have "map ?b ys ! i = map ?b xs ! i" by (simp only: same)
    then have e: "?b (ys ! i) = ?b (xs ! i)" using that len by simp
    from sorted_prefix_index [OF srt i, of ?k]
    have "i < m \<longleftrightarrow> ?b (ys ! i) < ?k" unfolding m_def e using that by simp
    then show ?thesis by (simp only: block_of_last)
  qed
  let ?xs1 = "take m xs" and ?ys1 = "take m ys" and ?xs2 = "drop m xs" and ?ys2 = "drop m ys"
  have x1: "\<forall>x \<in> set ?xs1. unat x < ?S"
  proof
    fix x assume "x \<in> set ?xs1"
    then obtain i where "i < length ?xs1" "x = ?xs1 ! i" by (auto simp: in_set_conv_nth)
    then have "i < m" "i < length xs" "x = xs ! i" by simp_all
    then show "unat x < ?S" using ix by simp
  qed
  have y1: "\<forall>y \<in> set ?ys1. unat y < ?S"
  proof
    fix y assume "y \<in> set ?ys1"
    then obtain i where "i < length ?ys1" "y = ?ys1 ! i" by (auto simp: in_set_conv_nth)
    then have "i < m" "i < length xs" "y = ys ! i" using len by simp_all
    then show "unat y < ?S" using iy by simp
  qed
  have x2: "\<forall>x \<in> set ?xs2. ?S \<le> unat x \<and> unat x < ?S + n"
  proof
    fix x assume a: "x \<in> set ?xs2"
    then obtain j where "j < length ?xs2" "x = ?xs2 ! j" by (auto simp: in_set_conv_nth)
    then have mj: "m + j < length xs" "x = xs ! (m + j)" using mle by simp_all
    from ix [OF mj(1)] have "\<not> unat x < ?S" unfolding mj(2) by simp
    moreover have "x \<in> set xs" using a by (rule in_set_dropD)
    ultimately show "?S \<le> unat x \<and> unat x < ?S + n" using xlt by simp
  qed
  have y2: "\<forall>y \<in> set ?ys2. ?S \<le> unat y \<and> unat y < ?S + n"
  proof
    fix y assume a: "y \<in> set ?ys2"
    then obtain j where "j < length ?ys2" "y = ?ys2 ! j" by (auto simp: in_set_conv_nth)
    then have mj: "m + j < length xs" "y = ys ! (m + j)" using mle len by simp_all
    from iy [OF mj(1)] have "\<not> unat y < ?S" unfolding mj(2) by simp
    moreover have "y \<in> set ys" using a by (rule in_set_dropD)
    ultimately show "?S \<le> unat y \<and> unat y < ?S + n" using ylt by simp
  qed
  have ok1: "endpoints_ok ?S ?xs1 ?ys1"
    using len x1 y1 by (simp add: endpoints_ok_def)
  have same1: "map ?b ?ys1 = map ?b ?xs1"
    using same by (simp only: take_map [symmetric])
  have srt1: "sorted (map ?b ?xs1)"
    using srt by (simp only: take_map [symmetric] sorted_wrt_take)
  from snoc.IH [OF ok1 same1 srt1] obtain gs where
    nv: "map NumVertices gs = ns" and wf: "\<forall>g \<in> set gs. wf_graph g"
    and cs: "shifted_concat all_edges_src NumVertices gs = ?xs1"
    and cd: "shifted_concat all_edges_dst NumVertices gs = ?ys1"
    by blast
  let ?xs3 = "map (\<lambda>x. x - word_of_nat ?S) ?xs2" and ?ys3 = "map (\<lambda>y. y - word_of_nat ?S) ?ys2"
  let ?g = "graph_of n ?xs3 ?ys3"
  have ok3: "endpoints_ok n ?xs3 ?ys3"
  proof -
    have "unat (x - word_of_nat ?S) < n" if "x \<in> set ?xs2" for x
    proof -
      from that x2 have b: "?S \<le> unat x" "unat x < ?S + n" by simp_all
      have "unat (x - word_of_nat ?S) = unat x - ?S" by (rule unat_sub_of_nat [OF b(1)])
      then show ?thesis using b by simp
    qed
    moreover have "unat (y - word_of_nat ?S) < n" if "y \<in> set ?ys2" for y
    proof -
      from that y2 have b: "?S \<le> unat y" "unat y < ?S + n" by simp_all
      have "unat (y - word_of_nat ?S) = unat y - ?S" by (rule unat_sub_of_nat [OF b(1)])
      then show ?thesis using b by simp
    qed
    ultimately show ?thesis using len by (auto simp: endpoints_ok_def)
  qed
  have wfg: "wf_graph ?g" by (rule wf_graph_graph_of [OF ok3])
  have ng: "NumVertices ?g = n" by (simp add: NumVertices_def)
  have sum: "sum_list (map NumVertices gs) = ?S" by (simp only: nv)
  have rt: "map (\<lambda>x. x + word_of_nat ?S) (map (\<lambda>x. x - word_of_nat ?S) zs) = zs"
    for zs :: "dgl_id_t list"
    by (simp add: o_def)
  show ?case
  proof (intro exI [of _ "gs @ [?g]"] conjI)
    show "map NumVertices (gs @ [?g]) = ns @ [n]" using nv ng by simp
    show "\<forall>g \<in> set (gs @ [?g]). wf_graph g" using wf wfg by simp
    show "shifted_concat all_edges_src NumVertices (gs @ [?g]) = xs"
      unfolding shifted_concat_snoc sum cs graph_of_sel rt by simp
    show "shifted_concat all_edges_dst NumVertices (gs @ [?g]) = ys"
      unfolding shifted_concat_snoc sum cd graph_of_sel rt by simp
  qed
qed

lemma partition_block_layout:
  assumes wf: "wf_graph g"
    and nonneg: "\<forall>s \<in> set (sizes_data sizes). 0 \<le> s"
    and total: "sum_list (sizes_data sizes) = int (NumVertices g)"
    and bound: "NumVertices g < 2 ^ 63"
    and nc: "no_crossing_edge g (cumsum_from 0 (sizes_data sizes))"
    and ord: "edges_in_block_order g (cumsum_from 0 (sizes_data sizes))"
  shows "\<exists>parts. DisjointPartitionBySizes g sizes = Inr parts \<and> length parts = shape0 sizes \<and>
    map NumVertices parts = map nat (sizes_data sizes) \<and> (\<forall>p \<in> set parts. wf_graph p)"
proof -
  define ns where "ns = map nat (sizes_data sizes)"
  let ?S = "all_edges_src g" and ?D = "all_edges_dst g"
  have szs: "sizes_data sizes = map int ns"
    unfolding ns_def by (rule nonneg_sizes [OF nonneg])
  have "int (sum_list ns) = int (NumVertices g)"
    using total by (simp add: szs sum_list_of_nat)
  then have tot: "sum_list ns = NumVertices g" by simp
  from wf have ok: "endpoints_ok (sum_list ns) ?S ?D"
    and eq: "g = graph_of (NumVertices g) ?S ?D"
    unfolding tot by (simp_all add: wf_graph_def)
  have same: "map (block_of (cumsum_from 0 (map int ns))) ?D = map (block_of (cumsum_from 0 (map int ns))) ?S"
    using nc unfolding no_crossing_edge_def szs .
  have srt: "sorted (map (block_of (cumsum_from 0 (map int ns))) ?S)"
    using ord unfolding edges_in_block_order_def szs .
  from block_decomposition [OF ok same srt] obtain gs where
    nv: "map NumVertices gs = ns" and wfs: "\<forall>p \<in> set gs. wf_graph p"
    and cs: "shifted_concat all_edges_src NumVertices gs = ?S"
    and cd: "shifted_concat all_edges_dst NumVertices gs = ?D"
    by blast
  have sum: "sum_list (map NumVertices gs) = NumVertices g" by (simp only: nv tot)
  have b: "sum_list (map NumVertices gs) < 2 ^ 63" unfolding sum by (rule bound)
  have szs': "sizes_data sizes = map int (map NumVertices gs)" by (simp only: nv szs)
  have "DisjointPartitionBySizes g sizes = Inr gs"
    using partition_blocks [OF wfs b szs'] unfolding sum cs cd eq [symmetric] .
  moreover have "length gs = shape0 sizes"
  proof -
    have "length gs = length (map NumVertices gs)" by simp
    also have "\<dots> = length (sizes_data sizes)" by (simp only: szs' length_map)
    finally show ?thesis by (simp add: shape0_def sizes_data_def)
  qed
  moreover have "map NumVertices gs = map nat (sizes_data sizes)" by (simp only: nv ns_def)
  ultimately show ?thesis using wfs by blast
qed

lemma sorted_block_runs:
  "sorted (concat (map (\<lambda>k. replicate (l k) k) [0 ..< n]))"
proof (induction n)
  case 0
  then show ?case by simp
next
  case (Suc n)
  have "\<forall>x \<in> set (concat (map (\<lambda>k. replicate (l k) k) [0 ..< n])). x < n" by auto
  then show ?case using Suc by (auto simp: sorted_append)
qed

lemma union_blocks:
  fixes f :: "'g \<Rightarrow> dgl_id_t list" and c :: "'g \<Rightarrow> nat"
  shows "\<forall>g \<in> set p. \<forall>x \<in> set (f g). unat x < c g \<Longrightarrow> sum_list (map c p) \<le> 2 ^ 64 \<Longrightarrow>
    (\<forall>x \<in> set (shifted_concat f c p). unat x < sum_list (map c p)) \<and>
    map (block_of (cumsum_from 0 (map int (map c p)))) (shifted_concat f c p) =
      concat (map (\<lambda>k. replicate (length (f (p ! k))) k) [0 ..< length p])"
proof (induction p rule: rev_induct)
  case Nil
  then show ?case by (simp add: shifted_concat_Nil)
next
  case (snoc g p)
  let ?S = "sum_list (map c p)" and ?ns = "map c p" and ?n = "c g"
  let ?X = "shifted_concat f c p"
  let ?A = "map (\<lambda>x. x + word_of_nat ?S) (f g)"
  let ?b' = "block_of (cumsum_from 0 (map int (?ns @ [?n])))"
  let ?b = "block_of (cumsum_from 0 (map int ?ns))"
  from snoc.prems have okp: "\<forall>g \<in> set p. \<forall>x \<in> set (f g). unat x < c g"
    and okg: "\<forall>x \<in> set (f g). unat x < ?n"
    and bp: "?S \<le> 2 ^ 64" and bg: "?S + ?n \<le> 2 ^ 64"
    by simp_all
  from snoc.IH [OF okp bp] have Xlt: "\<forall>x \<in> set ?X. unat x < ?S"
    and IH: "map ?b ?X = concat (map (\<lambda>k. replicate (length (f (p ! k))) k) [0 ..< length p])"
    by simp_all
  have sh: "unat (x + word_of_nat ?S) = unat x + ?S" if "x \<in> set (f g)" for x
    using okg that unat_shift [OF _ bg] by simp
  have bs: "?b' v = ?b v" if "unat v < ?S + ?n" for v using that by (rule block_of_snoc)
  have bX: "map ?b' ?X = map ?b ?X"
    by (rule map_cong [OF refl]) (use Xlt bs in fastforce)
  have bA: "?b' a = length p" if "a \<in> set ?A" for a
  proof -
    from that obtain x where x: "x \<in> set (f g)" "a = x + word_of_nat ?S" by auto
    then have ua: "unat a = unat x + ?S" using sh by simp
    then have lt: "unat a < ?S + ?n" using okg x(1) by simp
    have "\<not> ?b a < length ?ns" unfolding block_of_last using ua by simp
    moreover have "?b a \<le> length ?ns" by (rule block_of_le)
    ultimately have "?b a = length p" by simp
    then show ?thesis using bs [OF lt] by simp
  qed
  have mA: "map ?b' ?A = replicate (length (f g)) (length p)"
  proof -
    have "map ?b' ?A = map (\<lambda>_. length p) ?A"
      by (rule map_cong [OF refl]) (use bA in blast)
    then show ?thesis by (simp add: map_replicate_const)
  qed
  have r: "map (\<lambda>k. replicate (length (f ((p @ [g]) ! k))) k) [0 ..< length p] =
      map (\<lambda>k. replicate (length (f (p ! k))) k) [0 ..< length p]"
    by (rule map_cong) (simp_all add: nth_append)
  have lt': "\<forall>x \<in> set (?X @ ?A). unat x < ?S + ?n"
    using Xlt okg sh by auto
  have "map ?b' (?X @ ?A) = map ?b' ?X @ map ?b' ?A" by (rule map_append)
  also have "\<dots> = concat (map (\<lambda>k. replicate (length (f (p ! k))) k) [0 ..< length p]) @
      replicate (length (f g)) (length p)"
    by (simp only: bX IH mA)
  finally have e: "map ?b' (?X @ ?A) =
      concat (map (\<lambda>k. replicate (length (f (p ! k))) k) [0 ..< length p]) @
      replicate (length (f g)) (length p)" .
  have rhs: "concat (map (\<lambda>k. replicate (length (f ((p @ [g]) ! k))) k) [0 ..< length (p @ [g])]) =
      concat (map (\<lambda>k. replicate (length (f (p ! k))) k) [0 ..< length p]) @
      replicate (length (f g)) (length p)"
    by (simp add: r)
  have cum: "map int (map c (p @ [g])) = map int (?ns @ [?n])" by simp
  have tot: "sum_list (map c (p @ [g])) = ?S + ?n" by simp
  show ?case
  proof (intro conjI)
    show "\<forall>x \<in> set (shifted_concat f c (p @ [g])). unat x < sum_list (map c (p @ [g]))"
      unfolding shifted_concat_snoc tot by (rule lt')
    show "map (block_of (cumsum_from 0 (map int (map c (p @ [g]))))) (shifted_concat f c (p @ [g])) =
        concat (map (\<lambda>k. replicate (length (f ((p @ [g]) ! k))) k) [0 ..< length (p @ [g])])"
      unfolding shifted_concat_snoc cum rhs by (rule e)
  qed
qed

lemma DisjointUnion_block_layout:
  assumes wf: "\<forall>g \<in> set gs. wf_graph g"
    and bound: "sum_list (map NumVertices gs) < 2 ^ 63"
    and u: "DisjointUnion gs = Inr u"
  shows "no_crossing_edge u (cumsum_from 0 (map int (map NumVertices gs))) \<and>
    edges_in_block_order u (cumsum_from 0 (map int (map NumVertices gs)))"
proof -
  let ?N = "sum_list (map NumVertices gs)"
  let ?S = "shifted_concat all_edges_src NumVertices gs"
  let ?D = "shifted_concat all_edges_dst NumVertices gs"
  let ?cum = "cumsum_from 0 (map int (map NumVertices gs))"
  from bound have b64: "?N \<le> 2 ^ 64" by simp
  have eok: "\<forall>g \<in> set gs. edges_ok g"
    using wf wf_graph_facts(2) by (auto simp: edges_ok_def wf_graph_def)
  from union_graphs_loop [OF eok b64] have
    run: "fold_err union_graph gs (empty_graph, 0) = Inr (graph_of ?N ?S ?D, ?N)" by simp
  have "DisjointUnion gs = Inr (graph_of ?N ?S ?D)"
    by (simp add: DisjointUnion_def run)
  with u have ue: "u = graph_of ?N ?S ?D" by simp
  have sx: "\<forall>g \<in> set gs. \<forall>x \<in> set (all_edges_src g). unat x < NumVertices g"
    and dx: "\<forall>g \<in> set gs. \<forall>x \<in> set (all_edges_dst g). unat x < NumVertices g"
    and ln: "\<forall>g \<in> set gs. length (all_edges_dst g) = length (all_edges_src g)"
    using wf wf_graph_facts by blast+
  from union_blocks [OF sx b64] have
    bS: "map (block_of ?cum) ?S = concat (map (\<lambda>k. replicate (length (all_edges_src (gs ! k))) k) [0 ..< length gs])"
    by simp
  from union_blocks [OF dx b64] have
    bD: "map (block_of ?cum) ?D = concat (map (\<lambda>k. replicate (length (all_edges_dst (gs ! k))) k) [0 ..< length gs])"
    by simp
  have "map (\<lambda>k. replicate (length (all_edges_dst (gs ! k))) k) [0 ..< length gs] =
      map (\<lambda>k. replicate (length (all_edges_src (gs ! k))) k) [0 ..< length gs]"
    by (rule map_cong) (use ln in simp_all)
  then have "map (block_of ?cum) ?D = map (block_of ?cum) ?S" unfolding bS bD by (simp only:)
  moreover have "sorted (map (block_of ?cum) ?S)" unfolding bS by (rule sorted_block_runs)
  ultimately show ?thesis
    unfolding ue by (simp add: no_crossing_edge_def edges_in_block_order_def)
qed

text \<open>
  Claim C10, as stated, fails for \<^verbatim>\<open>DisjointPartitionBySizes\<close>. The graph of four vertices with
  edge 0 from 2 to 3 and edge 1 from 0 to 1 is well-formed, its vertices lie in the blocks
  \<open>{0, 1}\<close> and \<open>{2, 3}\<close> of the sizes \<open>[2, 2]\<close>, and no edge crosses a block; but the edge
  ids do not follow the blocks. The first graph returned has the edge arrays \<open>[2]\<close> and
  \<open>[3]\<close> over two vertices, and its adjacency list names edge id 1: it breaks the invariant.
\<close>

theorem partition_breaks_invariant_on_unordered_edge_ids:
  "wf_graph (graph_of 4 [2, 0] [3, 1]) \<and>
   sum_list (sizes_data (id_array [2, 2])) = int (NumVertices (graph_of 4 [2, 0] [3, 1])) \<and>
   no_crossing_edge (graph_of 4 [2, 0] [3, 1]) (cumsum_from 0 (sizes_data (id_array [2, 2]))) \<and>
   DisjointPartitionBySizes (graph_of 4 [2, 0] [3, 1]) (id_array [2, 2]) =
     Inr [\<lparr>adjlist = [\<lparr>succ = [1], edge_id = [1]\<rparr>, \<lparr>succ = [], edge_id = []\<rparr>],
           reverse_adjlist = [\<lparr>succ = [], edge_id = []\<rparr>, \<lparr>succ = [0], edge_id = [1]\<rparr>],
           all_edges_src = [2], all_edges_dst = [3], num_edges = 1\<rparr>,
          \<lparr>adjlist = [\<lparr>succ = [1], edge_id = [- 1]\<rparr>, \<lparr>succ = [], edge_id = []\<rparr>],
           reverse_adjlist = [\<lparr>succ = [], edge_id = []\<rparr>, \<lparr>succ = [0], edge_id = [- 1]\<rparr>],
           all_edges_src = [- 2], all_edges_dst = [- 1], num_edges = 1\<rparr>] \<and>
   \<not> adjacency_invariant
       \<lparr>adjlist = [\<lparr>succ = [1], edge_id = [1]\<rparr>, \<lparr>succ = [], edge_id = []\<rparr>],
        reverse_adjlist = [\<lparr>succ = [], edge_id = []\<rparr>, \<lparr>succ = [0], edge_id = [1]\<rparr>],
        all_edges_src = [2], all_edges_dst = [3], num_edges = 1\<rparr>"
  by code_simp

text \<open>
  Claim C10, amended. Every mutable graph that \<^verbatim>\<open>LineGraph\<close> returns and every mutable graph
  that \<^verbatim>\<open>DisjointUnion\<close> returns satisfies the adjacency-list invariant; and when the input of
  \<^verbatim>\<open>DisjointPartitionBySizes\<close> is a well-formed graph (of fewer than \<open>2 ^ 63\<close> vertices) laid
  out as \<^verbatim>\<open>DisjointUnion\<close> lays it out for the given non-negative sizes, which sum to its vertex
  count, that is, its vertices lie in contiguous increasing blocks, no edge crosses a block,
  and the edge ids follow the order of the blocks, the partition succeeds and every graph it
  returns satisfies the invariant: each edge id \<open>i\<close> maps to the pair of \<^verbatim>\<open>all_edges_src_[i]\<close>
  and \<^verbatim>\<open>all_edges_dst_[i]\<close>, which appears with edge id \<open>i\<close> in the adjacency list of its
  source and in the reverse adjacency list of its destination.
\<close>

theorem results_keep_adjacency_invariant:
  "(LineGraph g backtracking = Inr lg \<longrightarrow> adjacency_invariant lg) \<and>
   (DisjointUnion graphs = Inr u \<longrightarrow> adjacency_invariant u) \<and>
   (wf_graph b \<and> (\<forall>s \<in> set (sizes_data sizes). 0 \<le> s) \<and>
    sum_list (sizes_data sizes) = int (NumVertices b) \<and> NumVertices b < 2 ^ 63 \<and>
    no_crossing_edge b (cumsum_from 0 (sizes_data sizes)) \<and>
    edges_in_block_order b (cumsum_from 0 (sizes_data sizes)) \<longrightarrow>
      (\<exists>parts. DisjointPartitionBySizes b sizes = Inr parts \<and> length parts = shape0 sizes \<and>
         (\<forall>p \<in> set parts. adjacency_invariant p)))"
proof (intro conjI impI)
  assume "LineGraph g backtracking = Inr lg"
  then have "wf_graph lg" by (rule LineGraph_wf)
  then show "adjacency_invariant lg" by (rule wf_graph_adjacency_invariant)
next
  assume "DisjointUnion graphs = Inr u"
  then have "wf_graph u" by (rule DisjointUnion_wf)
  then show "adjacency_invariant u" by (rule wf_graph_adjacency_invariant)
next
  assume a: "wf_graph b \<and> (\<forall>s \<in> set (sizes_data sizes). 0 \<le> s) \<and>
    sum_list (sizes_data sizes) = int (NumVertices b) \<and> NumVertices b < 2 ^ 63 \<and>
    no_crossing_edge b (cumsum_from 0 (sizes_data sizes)) \<and>
    edges_in_block_order b (cumsum_from 0 (sizes_data sizes))"
  then have h: "wf_graph b" "\<forall>s \<in> set (sizes_data sizes). 0 \<le> s"
    "sum_list (sizes_data sizes) = int (NumVertices b)" "NumVertices b < 2 ^ 63"
    "no_crossing_edge b (cumsum_from 0 (sizes_data sizes))"
    "edges_in_block_order b (cumsum_from 0 (sizes_data sizes))"
    by simp_all
  from partition_block_layout [OF h] obtain parts where
    p: "DisjointPartitionBySizes b sizes = Inr parts" "length parts = shape0 sizes"
    and wfp: "\<forall>p \<in> set parts. wf_graph p"
    by blast
  have "\<forall>p \<in> set parts. adjacency_invariant p"
    using wfp wf_graph_adjacency_invariant by blast
  with p show "\<exists>parts. DisjointPartitionBySizes b sizes = Inr parts \<and> length parts = shape0 sizes \<and>
         (\<forall>p \<in> set parts. adjacency_invariant p)"
    by blast
qed

theorem results_keep_adjacency_invariant_witness:
  "adjacency_invariant (graph_of 3 [0] [2]) \<and>
   adjacency_invariant (graph_of 5 [0, 1, 3] [1, 2, 4]) \<and>
   (\<exists>parts. DisjointPartitionBySizes (graph_of 5 [0, 1, 3] [1, 2, 4]) (id_array [3, 2]) = Inr parts \<and>
      length parts = 2 \<and> (\<forall>p \<in> set parts. adjacency_invariant p))"
proof -
  let ?g = "graph_of 3 [0, 1, 1] [1, 0, 2]"
  let ?gs = "[graph_of 3 [0, 1] [1, 2], graph_of 2 [0] [1]]"
  let ?b = "graph_of 5 [0, 1, 3] [1, 2, 4]"
  let ?sizes = "id_array [3, 2]"
  have l: "LineGraph ?g False = Inr (graph_of 3 [0] [2])" by code_simp
  have d: "DisjointUnion ?gs = Inr ?b" by code_simp
  have h1: "wf_graph ?b" by code_simp
  have h2: "\<forall>s \<in> set (sizes_data ?sizes). 0 \<le> s" by code_simp
  have h3: "sum_list (sizes_data ?sizes) = int (NumVertices ?b)" by code_simp
  have n: "NumVertices ?b = 5" by code_simp
  have h4: "NumVertices ?b < 2 ^ 63" unfolding n by simp
  have h5: "no_crossing_edge ?b (cumsum_from 0 (sizes_data ?sizes))" by code_simp
  have h6: "edges_in_block_order ?b (cumsum_from 0 (sizes_data ?sizes))" by code_simp
  have len: "shape0 ?sizes = 2" by code_simp
  from results_keep_adjacency_invariant
    [of ?g False "graph_of 3 [0] [2]" ?gs ?b ?b ?sizes]
  show ?thesis
    unfolding len using l d h1 h2 h3 h4 h5 h6 by blast
qed

subsection \<open>Validation of the partition calls\<close>






lemma basic_valid [simp]:
  "nth_err xs i \<noteq> Inl InvalidArgument" "nth_int xs j \<noteq> Inl InvalidArgument"
  "store xs i v \<noteq> Inl InvalidArgument" "CSR_new a b \<noteq> Inl InvalidArgument"
  "relabel c d el \<noteq> Inl InvalidArgument" "Empty k \<noteq> Inl InvalidArgument"
  by (simp_all add: nth_err_def nth_int_def store_def CSR_new_def relabel_def Empty_def)





















end
